theory Spec2Isabelle
  imports Main
begin

section \<open>Blackjack (src/commands/blackjack.ts): data model\<close>

text \<open>
  The TypeScript enums \<open>Suit\<close> and \<open>Rank\<close> are numeric: the code computes with their
  members (\<open>id % Rank.length\<close>, \<open>this.rank + 1\<close>, \<open>this.rank >= Rank._10\<close>) and both
  enums carry a member \<open>length\<close>. They are modelled as natural numbers with the
  members as abbreviations. \<open>Move\<close>, \<open>Result\<close> and \<open>Status\<close> are only compared and
  assigned, and are datatypes; their members carry the enum's name as a prefix, since
  \<open>Move\<close> and \<open>Status\<close> share the member names STAND, DOUBLE and SURRENDER.
\<close>

type_synonym Suit = nat
type_synonym Rank = nat

abbreviation (input) Suit_length :: nat where "Suit_length \<equiv> 4"

abbreviation (input) Rank_ACE :: Rank where "Rank_ACE \<equiv> 0"
abbreviation (input) Rank_10 :: Rank where "Rank_10 \<equiv> 9"
abbreviation (input) Rank_length :: nat where "Rank_length \<equiv> 13"

abbreviation (input) PERFECT :: int where "PERFECT \<equiv> 21"

datatype Move = Move_INVALID | Move_HIT | Move_STAND | Move_DOUBLE | Move_SPLIT | Move_SURRENDER

datatype Result = Result_LOSE | Result_TIE | Result_WIN

datatype Status =
  Status_BLACKJACK | Status_WAIT | Status_CURRENT | Status_SURRENDER
  | Status_BUST | Status_STAND | Status_DOUBLE

text \<open>\<open>getMove\<close>: the switch over the (trimmed, lower-cased) text of a message.\<close>

definition getMove :: "string \<Rightarrow> Move" where
  "getMove content =
     (if content = ''h'' \<or> content = ''hit'' then Move_HIT
      else if content = ''s'' \<or> content = ''stand'' then Move_STAND
      else if content = ''d'' \<or> content = ''double'' \<or> content = ''double down'' then Move_DOUBLE
      else if content = ''p'' \<or> content = ''split'' then Move_SPLIT
      else if content = ''r'' \<or> content = ''surrender'' then Move_SURRENDER
      else Move_INVALID)"

subsection \<open>Card\<close>

record Card =
  suit :: Suit
  rank :: Rank
  down :: bool

definition fromId :: "nat \<Rightarrow> bool \<Rightarrow> Card" where
  "fromId ident d = \<lparr>suit = ident div Rank_length, rank = ident mod Rank_length, down = d\<rparr>"

text \<open>
  \<open>Card.fromRandom\<close> calls \<open>randInt\<close> of utils.js, which is not part of the sources
  here. The results of the successive calls of \<open>randInt(Suit.length * Rank.length)\<close>
  are a parameter \<open>rnd\<close>: \<open>rnd n\<close> is what the \<open>n\<close>-th call of the round returns.
\<close>

definition fromRandom :: "(nat \<Rightarrow> nat) \<Rightarrow> nat \<Rightarrow> bool \<Rightarrow> Card" where
  "fromRandom rnd n d = fromId (rnd n) d"

definition "value" :: "Card \<Rightarrow> int" where
  "value c = (if rank c \<ge> Rank_10 then 10 else int (rank c) + 1)"

subsection \<open>HandSum\<close>

record HandSum =
  sumv :: int
  soft :: bool

text \<open>\<open>sumv\<close> is the field \<open>sum\<close> of the class.\<close>

definition fromCards :: "Card list \<Rightarrow> HandSum" where
  "fromCards cs =
     (let rawSum = foldl (\<lambda>s crd. s + value crd) 0 cs in
      if list_ex (\<lambda>crd. rank crd = Rank_ACE) cs
      then (let sf = (rawSum + 10 \<le> PERFECT) in
            \<lparr>sumv = (if sf then rawSum + 10 else rawSum), soft = sf\<rparr>)
      else \<lparr>sumv = rawSum, soft = False\<rparr>)"

definition HandSum_hit :: "Card \<Rightarrow> HandSum \<Rightarrow> HandSum" where
  "HandSum_hit crd hs =
     (let hs1 = (if rank crd = Rank_ACE \<and> sumv hs + 11 \<le> PERFECT
                 then hs\<lparr>sumv := sumv hs + 11, soft := True\<rparr>
                 else hs\<lparr>sumv := sumv hs + value crd\<rparr>)
      in if soft hs1 \<and> sumv hs1 > PERFECT
         then hs1\<lparr>sumv := sumv hs1 - 10, soft := False\<rparr>
         else hs1)"

definition HandSum_bust :: "HandSum \<Rightarrow> bool" where
  "HandSum_bust hs \<longleftrightarrow> sumv hs > PERFECT"

subsection \<open>Hand and Dealer\<close>

record Hand =
  cards :: "Card list"
  handSum :: HandSum
  status :: Status

text \<open>\<open>class Dealer extends Hand\<close>: the record extends \<open>Hand\<close>, and the methods of
  \<open>Hand\<close> are defined on every extension of it.\<close>

record Dealer = Hand +
  hidden :: bool

definition blackjack :: "'a Hand_scheme \<Rightarrow> bool" where
  "blackjack h \<longleftrightarrow> sumv (handSum h) = PERFECT \<and> length (cards h) \<le> 2"

definition bust :: "'a Hand_scheme \<Rightarrow> bool" where
  "bust h \<longleftrightarrow> HandSum_bust (handSum h)"

text \<open>The constructor: the sum is computed from the cards, then the status from
  \<open>blackjack()\<close> of the object under construction.\<close>

definition Hand_new :: "Card list \<Rightarrow> Hand" where
  "Hand_new cs =
     (let h = \<lparr>cards = cs, handSum = fromCards cs, status = Status_WAIT\<rparr>
      in h\<lparr>status := (if blackjack h then Status_BLACKJACK else Status_WAIT)\<rparr>)"

definition Dealer_new :: "Card list \<Rightarrow> Dealer" where
  "Dealer_new cs = Hand.extend (Hand_new cs) (Dealer.fields True)"

text \<open>\<open>Hand.hit(card)\<close> with the card given: push it, update the sum in place.\<close>

definition Hand_hit :: "Card \<Rightarrow> 'a Hand_scheme \<Rightarrow> 'a Hand_scheme" where
  "Hand_hit crd h = h\<lparr>cards := cards h @ [crd], handSum := HandSum_hit crd (handSum h)\<rparr>"

definition compare :: "'a Hand_scheme \<Rightarrow> 'b Hand_scheme \<Rightarrow> Result" where
  "compare this hand =
     (let ourSum = sumv (handSum this); theirSum = sumv (handSum hand) in
      if ourSum > theirSum then Result_WIN
      else if ourSum < theirSum then Result_LOSE
      else if ourSum \<noteq> PERFECT then Result_TIE
      else (let ourBJ = (length (cards this) \<le> 2); theirBJ = (length (cards hand) \<le> 2) in
            if ourBJ \<and> \<not> theirBJ then Result_WIN
            else if \<not> ourBJ \<and> theirBJ then Result_LOSE
            else Result_TIE))"

lemma value_pos: "1 \<le> value c"
  by (simp add: value_def)

subsection \<open>Player and move acquisition\<close>

record Player =
  hands :: "Hand list"
  user :: nat

text \<open>A message of the channel: \<open>author\<close> is \<open>m.author.id\<close>, \<open>content\<close> is
  \<open>m.content.trim().toLowerCase()\<close>, the text that \<open>getMove\<close> receives.\<close>

record Message =
  author :: nat
  content :: string

text \<open>What \<open>display\<close> sends or edits into the prompt: one constructor for each
  description in the code. The embed's fields, which render the hands, are not modelled.\<close>

datatype Note =
  Note_prompt
  | Note_dealer_blackjack Result
  | Note_best_sum
  | Note_hit_bust Card
  | Note_hit Card
  | Note_double_bust Card
  | Note_double Card
  | Note_split_turn
  | Note_split_value
  | Note_split Card Card
  | Note_surrender_turn
  | Note_surrender
  | Note_dealer_reveal Card
  | Note_dealer_bust Card
  | Note_dealer_hit Card
  | Note_result Result
  | Note_inactivity

text \<open>
  The game object. \<open>prompt\<close> tells whether the field \<open>prompt\<close> is defined; \<open>shown\<close>
  is everything sent or edited into the prompt so far, oldest first; \<open>drawn\<close> counts the
  calls of \<open>randInt\<close> so far. The channel and the embed are not modelled, and the
  prompt is taken never to be deleted by a third party.
\<close>

record Blackjack =
  users :: "nat list"
  players :: "Player list"
  dealer :: Dealer
  prompt :: bool
  shown :: "Note list"
  drawn :: nat

definition display :: "Note \<Rightarrow> Blackjack \<Rightarrow> Blackjack" where
  "display d g = g\<lparr>prompt := True, shown := shown g @ [d]\<rparr>"

text \<open>Control flow. A loop body either goes round again, breaks out of its loop,
  returns from \<open>runGame\<close>, or throws (a TypeError on an undefined element).\<close>

datatype Step = Again Blackjack | Break Blackjack | Returns Blackjack | Throws

text \<open>A part of \<open>runGame\<close> either goes on to the next statement with a value, returns
  from \<open>runGame\<close>, awaits a promise that is never resolved, or throws.\<close>

datatype 'a Flow = Goes 'a | Returned Blackjack | Pending Blackjack | Threw

datatype Outcome = Finished Blackjack | Suspended Blackjack | Errored

definition outcome :: "'a Flow \<Rightarrow> ('a \<Rightarrow> Outcome) \<Rightarrow> Outcome" where
  "outcome f k =
     (case f of Goes x \<Rightarrow> k x | Returned g \<Rightarrow> Finished g
      | Pending g \<Rightarrow> Suspended g | Threw \<Rightarrow> Errored)"

text \<open>
  \<open>Player.move\<close>. The collector is open for one minute and takes at most one message;
  \<open>w\<close> is the list of messages that reach the channel while it is open, in order. The
  filter is \<open>collects\<close>. When a message is collected the promise resolves with its
  move (\<open>Inr\<close>). When none is, the collector ends by time, \<open>prompt?.edit\<close> writes the
  inactivity notice, and the promise is never resolved (\<open>Inl\<close>, with the game as it
  is left). Deleting the collected message, which \<open>safeDelete\<close> of utils.js does when the
  bot may manage messages, is taken to complete: it only delays the resolution.
\<close>

definition collects :: "Player \<Rightarrow> Message \<Rightarrow> bool" where
  "collects pl m =
     (if author m \<noteq> user pl then False
      else if getMove (content m) = Move_INVALID then False
      else True)"

definition inactivity :: "Blackjack \<Rightarrow> Blackjack" where
  "inactivity g = (if prompt g then g\<lparr>shown := shown g @ [Note_inactivity]\<rparr> else g)"

definition Player_move :: "Player \<Rightarrow> Message list \<Rightarrow> Blackjack \<Rightarrow> Blackjack + Move" where
  "Player_move pl w g =
     (case List.find (collects pl) w of
        Some m \<Rightarrow> Inr (getMove (content m))
      | None \<Rightarrow> Inl (inactivity g))"

subsection \<open>The turn of a hand\<close>

text \<open>Reading \<open>this.players[p]\<close> and \<open>player.hands[h]\<close>: \<open>None\<close> is JavaScript's
  \<open>undefined\<close>, on which every property access throws.\<close>

definition player_at :: "Blackjack \<Rightarrow> nat \<Rightarrow> Player option" where
  "player_at g p = (if p < length (players g) then Some (players g ! p) else None)"

definition hand_at :: "Blackjack \<Rightarrow> nat \<Rightarrow> nat \<Rightarrow> Hand option" where
  "hand_at g p h =
     (case player_at g p of
        None \<Rightarrow> None
      | Some pl \<Rightarrow> (if h < length (hands pl) then Some (hands pl ! h) else None))"

definition set_hands :: "nat \<Rightarrow> Hand list \<Rightarrow> Blackjack \<Rightarrow> Blackjack" where
  "set_hands p hs g = g\<lparr>players := (players g)[p := (players g ! p)\<lparr>hands := hs\<rparr>]\<rparr>"

definition set_hand :: "nat \<Rightarrow> nat \<Rightarrow> Hand \<Rightarrow> Blackjack \<Rightarrow> Blackjack" where
  "set_hand p h hand g = set_hands p ((hands (players g ! p))[h := hand]) g"

text \<open>
  The body of the loop \<open>while (true)\<close> of a hand, after the move has arrived
  (lines 366 to 423), for hand \<open>h\<close> of player \<open>p\<close>. \<open>hand.hit()\<close> draws the next random
  card. The switch has no case for \<open>Move.INVALID\<close>, which goes round again.
\<close>

definition handMove :: "(nat \<Rightarrow> nat) \<Rightarrow> nat \<Rightarrow> nat \<Rightarrow> Move \<Rightarrow> Blackjack \<Rightarrow> Step" where
  "handMove rnd p h move g =
     (case hand_at g p h of
        None \<Rightarrow> Throws
      | Some hand \<Rightarrow>
          if sumv (handSum hand) = PERFECT \<and> move \<noteq> Move_STAND
          then Again (display Note_best_sum g)
          else (case move of
            Move_HIT \<Rightarrow>
              (let crd = fromRandom rnd (drawn g) False;
                   hand1 = Hand_hit crd hand;
                   g1 = set_hand p h hand1 (g\<lparr>drawn := drawn g + 1\<rparr>)
               in if bust hand1 then Break (display (Note_hit_bust crd) g1)
                  else Again (display (Note_hit crd) g1))
          | Move_STAND \<Rightarrow> Break (set_hand p h (hand\<lparr>status := Status_STAND\<rparr>) g)
          | Move_DOUBLE \<Rightarrow>
              (let crd = fromRandom rnd (drawn g) False;
                   hand1 = Hand_hit crd hand;
                   g1 = set_hand p h hand1 (g\<lparr>drawn := drawn g + 1\<rparr>)
               in if bust hand1 then Break (display (Note_double_bust crd) g1)
                  else Break (display (Note_double crd)
                                (set_hand p h (hand1\<lparr>status := Status_SURRENDER\<rparr>) g1)))
          | Move_SPLIT \<Rightarrow>
              if length (cards hand) > 2 then Again (display Note_split_turn g)
              else (case cards hand of
                c0 # c1 # rest \<Rightarrow>
                  if value c0 \<noteq> value c1 then Again (display Note_split_value g)
                  else
                    (let popped = last (cards hand);
                         hand1 = hand\<lparr>cards := butlast (cards hand)\<rparr>;
                         added = Hand_new [popped];
                         hand2 = hand1\<lparr>handSum := fromCards (cards hand1)\<rparr>;
                         crd = fromRandom rnd (drawn g) False;
                         hand3 = Hand_hit crd hand2;
                         crd' = fromRandom rnd (drawn g + 1) False;
                         added1 = Hand_hit crd' added;
                         hs = (hands (players g ! p))[h := hand3];
                         g1 = set_hands p (take (h + 1) hs @ [added1] @ drop (h + 1) hs)
                                (g\<lparr>drawn := drawn g + 2\<rparr>)
                     in Again (display (Note_split crd crd') g1))
              | _ \<Rightarrow> Throws)
          | Move_SURRENDER \<Rightarrow>
              if length (cards hand) > 2 then Again (display Note_surrender_turn g)
              else Break (display Note_surrender
                            (set_hand p h (hand\<lparr>status := Status_SURRENDER\<rparr>) g))
          | Move_INVALID \<Rightarrow> Again g))"

text \<open>
  The loop of a hand. \<open>ws\<close> holds, for each call of \<open>player.move()\<close> still to come,
  the messages that reach the channel while its collector is open; when \<open>ws\<close> is used
  up nobody writes any more: the collector sees no message and ends by time (the branch
  \<open>Inr\<close> of the first equation is never taken).
\<close>

fun handLoop ::
  "(nat \<Rightarrow> nat) \<Rightarrow> nat \<Rightarrow> nat \<Rightarrow> Message list list \<Rightarrow> Blackjack
     \<Rightarrow> (Message list list \<times> Blackjack) Flow" where
  "handLoop rnd p h [] g =
     (case player_at g p of
        None \<Rightarrow> Threw
      | Some pl \<Rightarrow>
         (case Player_move pl [] g of
            Inl g' \<Rightarrow> Pending g'
          | Inr move \<Rightarrow> Threw))"
| "handLoop rnd p h (w # ws) g =
     (case player_at g p of
        None \<Rightarrow> Threw
      | Some pl \<Rightarrow>
         (case Player_move pl w g of
            Inl g' \<Rightarrow> Pending g'
          | Inr move \<Rightarrow>
             (case handMove rnd p h move g of
                Again g' \<Rightarrow> handLoop rnd p h ws g'
              | Break g' \<Rightarrow> Goes (ws, g')
              | Returns g' \<Rightarrow> Returned g'
              | Throws \<Rightarrow> Threw)))"

lemma handLoop_Nil [simp]:
  "handLoop rnd p h [] g =
     (case player_at g p of None \<Rightarrow> Threw | Some pl \<Rightarrow> Pending (inactivity g))"
  by (simp add: Player_move_def split: option.splits)

declare handLoop.simps(1) [simp del]

lemma handLoop_shorter:
  "handLoop rnd p h ws g = Goes (ws', g') \<Longrightarrow> length ws' < length ws"
proof (induction ws arbitrary: g)
  case Nil
  then show ?case by (simp split: option.splits)
next
  case (Cons w ws)
  then show ?case
    by (fastforce split: option.splits sum.splits Step.splits)
qed

text \<open>The body of the loop over the hands of a player (lines 361 to 424): the hand
  becomes the current one, then its loop runs.\<close>

definition handTurn ::
  "(nat \<Rightarrow> nat) \<Rightarrow> nat \<Rightarrow> nat \<Rightarrow> Message list list \<Rightarrow> Blackjack
     \<Rightarrow> (Message list list \<times> Blackjack) Flow" where
  "handTurn rnd p h ws g =
     (case hand_at g p h of
        None \<Rightarrow> Threw
      | Some hand \<Rightarrow> handLoop rnd p h ws (set_hand p h (hand\<lparr>status := Status_CURRENT\<rparr>) g))"

lemma handTurn_shorter:
  "handTurn rnd p h ws g = Goes (ws', g') \<Longrightarrow> length ws' < length ws"
  by (auto simp: handTurn_def split: option.splits dest: handLoop_shorter)

text \<open>The loop \<open>for (let h = 0; h < player.hands.length; ++h)\<close>, from \<open>h\<close> on; a split
  lengthens \<open>player.hands\<close> while the loop runs.\<close>

function handsLoop ::
  "(nat \<Rightarrow> nat) \<Rightarrow> nat \<Rightarrow> nat \<Rightarrow> Message list list \<Rightarrow> Blackjack
     \<Rightarrow> (Message list list \<times> Blackjack) Flow" where
  "handsLoop rnd p h ws g =
     (case player_at g p of
        None \<Rightarrow> Threw
      | Some pl \<Rightarrow>
          if h < length (hands pl)
          then (case handTurn rnd p h ws g of
                  Goes (ws', g') \<Rightarrow> handsLoop rnd p (h + 1) ws' g'
                | Returned g' \<Rightarrow> Returned g'
                | Pending g' \<Rightarrow> Pending g'
                | Threw \<Rightarrow> Threw)
          else Goes (ws, g))"
  by pat_completeness auto
termination
  by (relation "measure (\<lambda>(rnd, p, h, ws, g). length ws)") (auto dest: handTurn_shorter)

declare handsLoop.simps [simp del]

text \<open>The loop \<open>for (const player of this.players)\<close> over the indices \<open>ps\<close> still to
  come; the length of \<open>this.players\<close> never changes.\<close>

fun playersLoop ::
  "(nat \<Rightarrow> nat) \<Rightarrow> nat list \<Rightarrow> Message list list \<Rightarrow> Blackjack
     \<Rightarrow> (Message list list \<times> Blackjack) Flow" where
  "playersLoop rnd [] ws g = Goes (ws, g)"
| "playersLoop rnd (p # ps) ws g =
     (case handsLoop rnd p 0 ws (display Note_prompt g) of
        Goes (ws', g') \<Rightarrow> playersLoop rnd ps ws' g'
      | Returned g' \<Rightarrow> Returned g'
      | Pending g' \<Rightarrow> Pending g'
      | Threw \<Rightarrow> Threw)"

subsection \<open>The dealer\<close>

text \<open>\<open>Dealer.reveal\<close>; \<open>None\<close> when \<open>this.cards[1]\<close> is undefined and the assignment
  to its \<open>down\<close> throws.\<close>

definition reveal :: "Dealer \<Rightarrow> (Card \<times> Dealer) option" where
  "reveal d =
     (if length (cards d) < 2 then None
      else (let c = (cards d ! 1)\<lparr>down := False\<rparr>
            in Some (c, d\<lparr>cards := (cards d)[1 := c], hidden := False\<rparr>)))"

definition dealerMove :: "Blackjack \<Rightarrow> Move" where
  "dealerMove g =
     (let s = sumv (handSum (dealer g)); sf = soft (handSum (dealer g)) in
      if s < 17 \<or> s = 17 \<and> sf then Move_HIT else Move_STAND)"

text \<open>The body of the dealer's loop (lines 433 to 452).\<close>

definition dealerStep :: "(nat \<Rightarrow> nat) \<Rightarrow> Blackjack \<Rightarrow> Step" where
  "dealerStep rnd g =
     (case dealerMove g of
        Move_HIT \<Rightarrow>
          (let crd = fromRandom rnd (drawn g) False;
               g1 = g\<lparr>dealer := Hand_hit crd (dealer g), drawn := drawn g + 1\<rparr>
           in if sumv (handSum (dealer g1)) > PERFECT
              then Returns (display (Note_dealer_bust crd)
                              (g1\<lparr>dealer := (dealer g1)\<lparr>status := Status_BUST\<rparr>\<rparr>))
              else Again (display (Note_dealer_hit crd) g1))
      | Move_STAND \<Rightarrow> Break (g\<lparr>dealer := (dealer g)\<lparr>status := Status_STAND\<rparr>\<rparr>)
      | _ \<Rightarrow> Again g)"

text \<open>What decreases with every round of the dealer's loop: a card adds at least 1 to
  the sum, an ace counted as 11 makes a hard hand soft, and a soft hand that passes 21
  becomes hard once and for all, at 12 or more.\<close>

definition dealerRank :: "Blackjack \<Rightarrow> nat" where
  "dealerRank g =
     nat ((if soft (handSum (dealer g)) then 32 else 22) - sumv (handSum (dealer g)))"

lemma dealerStep_Again:
  "dealerStep rnd g = Again g' \<Longrightarrow> dealerRank g' < dealerRank g"
  using value_pos [of "fromRandom rnd (drawn g) False"]
  by (auto simp: dealerStep_def dealerMove_def dealerRank_def display_def Hand_hit_def
      HandSum_hit_def Let_def split: if_splits)

function dealerLoop :: "(nat \<Rightarrow> nat) \<Rightarrow> Blackjack \<Rightarrow> Blackjack Flow" where
  "dealerLoop rnd g =
     (case dealerStep rnd g of
        Again g' \<Rightarrow> dealerLoop rnd g'
      | Break g' \<Rightarrow> Goes g'
      | Returns g' \<Rightarrow> Returned g'
      | Throws \<Rightarrow> Threw)"
  by pat_completeness auto
termination
  by (relation "measure (\<lambda>(rnd, g). dealerRank g)") (auto dest: dealerStep_Again)

declare dealerLoop.simps [simp del]

text \<open>The dealer's hand after the dealer has hit \<open>n\<close> times (\<open>this.dealer.hit()\<close>, line
  435), when \<open>k\<close> random numbers had been taken before the first of these hits.\<close>

fun hits :: "(nat \<Rightarrow> nat) \<Rightarrow> nat \<Rightarrow> nat \<Rightarrow> Dealer \<Rightarrow> Dealer" where
  "hits rnd k 0 d = d"
| "hits rnd k (Suc n) d = hits rnd (Suc k) n (Hand_hit (fromRandom rnd k False) d)"

subsection \<open>The round\<close>

text \<open>Lines 346 and 347: a hand of two random cards for each user, in order, then the
  dealer's two cards, the second face down.\<close>

definition Hand_deal :: "(nat \<Rightarrow> nat) \<Rightarrow> nat \<Rightarrow> Hand" where
  "Hand_deal rnd n = Hand_new [fromRandom rnd n False, fromRandom rnd (n + 1) False]"

definition Player_deal :: "(nat \<Rightarrow> nat) \<Rightarrow> nat \<Rightarrow> nat \<Rightarrow> Player" where
  "Player_deal rnd n u = \<lparr>hands = [Hand_deal rnd n], user = u\<rparr>"

definition Dealer_deal :: "(nat \<Rightarrow> nat) \<Rightarrow> nat \<Rightarrow> Dealer" where
  "Dealer_deal rnd n = Dealer_new [fromRandom rnd n False, fromRandom rnd (n + 1) True]"

text \<open>\<open>this.users.map(user => Player.deal(user, this))\<close>, when \<open>n\<close> random numbers have
  been taken: each player takes the next two.\<close>

fun Players_deal :: "(nat \<Rightarrow> nat) \<Rightarrow> nat \<Rightarrow> nat list \<Rightarrow> Player list" where
  "Players_deal rnd n [] = []"
| "Players_deal rnd n (u # us) = Player_deal rnd n u # Players_deal rnd (n + 2) us"

definition deal :: "(nat \<Rightarrow> nat) \<Rightarrow> nat list \<Rightarrow> Blackjack" where
  "deal rnd us =
     \<lparr>users = us,
      players = Players_deal rnd 0 us,
      dealer = Dealer_deal rnd (2 * length us),
      prompt = False, shown = [], drawn = 2 * length us + 2\<rparr>"

text \<open>Lines 455 to 468: the result of the first hand of the first player.\<close>

definition settle :: "Blackjack \<Rightarrow> Outcome" where
  "settle g =
     (case hand_at g 0 0 of
        None \<Rightarrow> Errored
      | Some hand \<Rightarrow> Finished (display (Note_result (compare hand (dealer g))) g))"

text \<open>Lines 428 to 468: the dealer's turn and the settlement.\<close>

definition dealerTurn :: "(nat \<Rightarrow> nat) \<Rightarrow> Blackjack \<Rightarrow> Outcome" where
  "dealerTurn rnd g =
     (let g1 = g\<lparr>dealer := (dealer g)\<lparr>status := Status_CURRENT\<rparr>\<rparr> in
      case reveal (dealer g1) of
        None \<Rightarrow> Errored
      | Some (c, d) \<Rightarrow>
          outcome (dealerLoop rnd (display (Note_dealer_reveal c) (g1\<lparr>dealer := d\<rparr>))) settle)"

definition runGame :: "(nat \<Rightarrow> nat) \<Rightarrow> nat list \<Rightarrow> Message list list \<Rightarrow> Outcome" where
  "runGame rnd us ws =
     (let g = deal rnd us in
      if sumv (handSum (dealer g)) = PERFECT
      then (case reveal (dealer g) of
              None \<Rightarrow> Errored
            | Some (c, d) \<Rightarrow>
               (case hand_at g 0 0 of
                  None \<Rightarrow> Errored
                | Some hand \<Rightarrow>
                    Finished (display (Note_dealer_blackjack
                                (if sumv (handSum hand) = PERFECT then Result_TIE else Result_LOSE))
                              (g\<lparr>dealer := d\<rparr>))))
      else outcome (playersLoop rnd [0..<length (players g)] ws g)
             (\<lambda>(ws', g'). dealerTurn rnd g'))"

subsection \<open>The command\<close>

text \<open>
  The map \<open>channels\<close> of the module (line 472): for each channel, the set of the ids of
  the users who are playing there. A JavaScript \<open>Set\<close> keeps its members once each, in
  the order in which they were added: it is a list without duplicates.
\<close>

type_synonym Channels = "nat \<rightharpoonup> nat list"

definition Set_new :: "nat list \<Rightarrow> nat list" where
  "Set_new xs = foldl (\<lambda>s x. if x \<in> set s then s else s @ [x]) [] xs"

text \<open>What \<open>execute\<close> reads of the message that invokes the command:
  \<open>message.author.id\<close>, the ids of \<open>message.mentions.users\<close> and
  \<open>message.channel.id\<close>.\<close>

record Invocation =
  invoker :: nat
  mentioned :: "nat list"
  channel :: nat

definition playerIds :: "Invocation \<Rightarrow> nat list" where
  "playerIds req = invoker req # mentioned req"

definition currentIds :: "Channels \<Rightarrow> Invocation \<Rightarrow> nat list" where
  "currentIds chs req = (case chs (channel req) of None \<Rightarrow> [] | Some ids \<Rightarrow> ids)"

text \<open>Lines 481 to 492, before the game: the command throws the error "Already
  playing" with the ids in conflict (\<open>Inl\<close>), or enters the players into the set of the
  channel.\<close>

definition execute_enter :: "Channels \<Rightarrow> Invocation \<Rightarrow> nat list + Channels" where
  "execute_enter chs req =
     (if length (currentIds chs req) > 0
         \<and> list_ex (\<lambda>uid. uid \<in> set (currentIds chs req)) (playerIds req)
      then Inl (filter (\<lambda>uid. uid \<in> set (currentIds chs req)) (playerIds req))
      else Inr (chs(channel req \<mapsto> Set_new (currentIds chs req @ playerIds req))))"

text \<open>Lines 497 to 503, after \<open>await game.runGame()\<close>: the players are taken out of the
  set of the channel. \<open>None\<close> when the channel has no set, and \<open>ids.size\<close> throws.\<close>

definition execute_leave :: "Channels \<Rightarrow> Invocation \<Rightarrow> Channels option" where
  "execute_leave chs req =
     (case chs (channel req) of
        None \<Rightarrow> None
      | Some ids \<Rightarrow>
          Some (if length (playerIds req) = length ids then chs(channel req := None)
                else chs(channel req \<mapsto> filter (\<lambda>uid. uid \<notin> set (playerIds req)) ids)))"

text \<open>
  \<open>execute\<close>, with the map \<open>channels\<close> as it leaves it, when no other command runs in
  between. \<open>Completed\<close>: the promise of \<open>execute\<close> is fulfilled. \<open>Already_playing\<close>: it
  is rejected with that error, before any game. \<open>Awaiting\<close>: \<open>runGame\<close> awaits a
  promise that is never resolved, and so does \<open>execute\<close>: lines 497 to 503 are never
  reached. \<open>Rejected\<close>: a statement threw.
\<close>

datatype Executed =
    Completed Channels Blackjack
  | Already_playing "nat list" Channels
  | Awaiting Channels Blackjack
  | Rejected Channels

definition execute ::
  "(nat \<Rightarrow> nat) \<Rightarrow> Message list list \<Rightarrow> Channels \<Rightarrow> Invocation \<Rightarrow> Executed" where
  "execute rnd ws chs req =
     (case execute_enter chs req of
        Inl conflictIds \<Rightarrow> Already_playing conflictIds chs
      | Inr chs1 \<Rightarrow>
          (case runGame rnd (playerIds req) ws of
             Finished g \<Rightarrow>
               (case execute_leave chs1 req of
                  None \<Rightarrow> Rejected chs1
                | Some chs2 \<Rightarrow> Completed chs2 g)
           | Suspended g \<Rightarrow> Awaiting chs1 g
           | Errored \<Rightarrow> Rejected chs1))"

subsection \<open>Observations\<close>

text \<open>The game as \<open>runGame\<close> leaves it, when it does not throw.\<close>

fun final :: "Outcome \<Rightarrow> Blackjack option" where
  "final (Finished g) = Some g"
| "final (Suspended g) = Some g"
| "final Errored = None"

text \<open>The game after one round of a loop body, when it does not throw.\<close>

fun after :: "Step \<Rightarrow> Blackjack option" where
  "after (Again g) = Some g"
| "after (Break g) = Some g"
| "after (Returns g) = Some g"
| "after Throws = None"


text \<open>The game where the dealer's loop leaves it, when it does not throw.\<close>

fun gone :: "Blackjack Flow \<Rightarrow> Blackjack option" where
  "gone (Goes g) = Some g"
| "gone (Returned g) = Some g"
| "gone (Pending g) = Some g"
| "gone Threw = None"

definition statuses :: "Blackjack \<Rightarrow> Status list list" where
  "statuses g = map (map status \<circ> hands) (players g)"

definition sums :: "Blackjack \<Rightarrow> int list list" where
  "sums g = map (map (sumv \<circ> handSum) \<circ> hands) (players g)"

text \<open>The result that a description announces at a settlement: "You tied!" or
  "You lost!" under DEALER BLACKJACK, "You won!" when the dealer busts, and the
  three messages of lines 455 to 468.\<close>

fun settles :: "Note \<Rightarrow> Result option" where
  "settles (Note_dealer_blackjack r) = Some r"
| "settles (Note_dealer_bust c) = Some Result_WIN"
| "settles (Note_result r) = Some r"
| "settles _ = None"

definition settled :: "Note list \<Rightarrow> Result list" where
  "settled ns = List.map_filter settles ns"

text \<open>The map \<open>channels\<close> after a call of \<open>execute\<close>; whether the promise of the call is
  ever settled; and the ids in conflict, when the call was refused.\<close>

fun registry :: "Executed \<Rightarrow> Channels" where
  "registry (Completed chs g) = chs"
| "registry (Already_playing ids chs) = chs"
| "registry (Awaiting chs g) = chs"
| "registry (Rejected chs) = chs"

fun returns :: "Executed \<Rightarrow> bool" where
  "returns (Completed chs g) = True"
| "returns (Already_playing ids chs) = True"
| "returns (Awaiting chs g) = False"
| "returns (Rejected chs) = True"

fun conflicts :: "Executed \<Rightarrow> nat list option" where
  "conflicts (Already_playing ids chs) = Some ids"
| "conflicts _ = None"

text \<open>
  Two relations between a game and a later one, for what the turns of the players leave
  in the prompt. \<open>quietly\<close>: the dealer is untouched, and no settlement and no
  inactivity notice has been added. \<open>lapsed\<close>: the dealer is untouched, no settlement
  has been added, and one inactivity notice has, as the last entry.
\<close>

definition quietly :: "Blackjack \<Rightarrow> Blackjack \<Rightarrow> bool" where
  "quietly g g' \<longleftrightarrow>
     dealer g' = dealer g \<and> settled (shown g') = settled (shown g)
     \<and> count_list (shown g') Note_inactivity = count_list (shown g) Note_inactivity"

definition lapsed :: "Blackjack \<Rightarrow> Blackjack \<Rightarrow> bool" where
  "lapsed g g' \<longleftrightarrow>
     dealer g' = dealer g \<and> settled (shown g') = settled (shown g)
     \<and> count_list (shown g') Note_inactivity = count_list (shown g) Note_inactivity + 1
     \<and> shown g' \<noteq> [] \<and> last (shown g') = Note_inactivity"

text \<open>
  What every hand of a round satisfies while it is played: it has at least two cards, and
  its sum is the sum of its cards. A game is sound when it has a player, every player
  has a hand, all hands are sound and the dealer has at least two cards.
\<close>

definition sound_hand :: "Hand \<Rightarrow> bool" where
  "sound_hand hand \<longleftrightarrow> 2 \<le> length (cards hand) \<and> handSum hand = fromCards (cards hand)"

definition sound :: "Blackjack \<Rightarrow> bool" where
  "sound g \<longleftrightarrow>
     players g \<noteq> []
     \<and> list_all (\<lambda>pl. hands pl \<noteq> [] \<and> list_all sound_hand (hands pl)) (players g)
     \<and> 2 \<le> length (cards (dealer g))"

subsection \<open>Sample inputs\<close>

text \<open>A random source that returns the listed numbers, then 0; a message; the cards
  by their numbers: 0 is the ace of clubs, 9 the ten of clubs, 12 the king of clubs.\<close>

definition shoe :: "nat list \<Rightarrow> nat \<Rightarrow> nat" where
  "shoe ids n = (if n < length ids then ids ! n else 0)"

definition msg :: "nat \<Rightarrow> string \<Rightarrow> Message" where
  "msg a t = \<lparr>author = a, content = t\<rparr>"

text \<open>One player with ten and nine; the dealer with ten and six, and a ten to come.\<close>

definition table16 :: Blackjack where
  "table16 = deal (shoe [9, 8, 9, 5, 9]) [1]"

text \<open>One player with the ten of clubs and the queen of diamonds; one with the ten of
  clubs and the nine of diamonds. The dealer has ten and seven; a three and a four come
  next.\<close>

definition tableTQ :: Blackjack where
  "tableTQ = deal (shoe [9, 24, 9, 6, 2, 3]) [1]"

definition tableT9 :: Blackjack where
  "tableT9 = deal (shoe [9, 21, 9, 6, 2, 3]) [1]"


text \<open>One player with ten and six; the dealer has ten and seven.\<close>

definition table17 :: Blackjack where
  "table17 = deal (shoe [9, 5, 9, 6]) [1]"

text \<open>User 1 starts a game in channel 7, alone, and with user 2.\<close>

definition alone :: Invocation where
  "alone = \<lparr>invoker = 1, mentioned = [], channel = 7\<rparr>"

definition pair :: Invocation where
  "pair = \<lparr>invoker = 1, mentioned = [2], channel = 7\<rparr>"

section \<open>Basic facts\<close>

lemma hand_at_SomeD:
  "hand_at g p h = Some hand \<Longrightarrow>
     p < length (players g) \<and> h < length (hands (players g ! p))
     \<and> hands (players g ! p) ! h = hand \<and> player_at g p = Some (players g ! p)"
  by (auto simp: hand_at_def player_at_def split: if_splits)

lemma display_frame [simp]:
  "players (display d g) = players g" "dealer (display d g) = dealer g"
  "drawn (display d g) = drawn g" "users (display d g) = users g"
  "prompt (display d g) = True" "shown (display d g) = shown g @ [d]"
  by (simp_all add: display_def)

lemma settled_append: "settled (ns @ ms) = settled ns @ settled ms"
  by (simp add: settled_def map_filter_def)

lemma settled_simps [simp]:
  "settled [] = []" "settled [n] = (case settles n of None \<Rightarrow> [] | Some r \<Rightarrow> [r])"
  by (simp_all add: settled_def map_filter_def split: option.splits)

lemma Hand_new_fields [simp]:
  "cards (Hand_new cs) = cs" "handSum (Hand_new cs) = fromCards cs"
  by (simp_all add: Hand_new_def Let_def)

lemma Dealer_new_fields [simp]:
  "cards (Dealer_new cs) = cs" "handSum (Dealer_new cs) = fromCards cs"
  "hidden (Dealer_new cs) = True" "status (Dealer_new cs) = status (Hand_new cs)"
  by (simp_all add: Dealer_new_def Hand.defs Dealer.defs)

lemma Player_move_Inl:
  "Player_move pl w g = Inl g1 \<Longrightarrow> g1 = inactivity g \<and> List.find (collects pl) w = None"
  by (auto simp: Player_move_def split: option.splits)

lemma set_hands_frame [simp]:
  "dealer (set_hands p hs g) = dealer g" "prompt (set_hands p hs g) = prompt g"
  "shown (set_hands p hs g) = shown g" "drawn (set_hands p hs g) = drawn g"
  "users (set_hands p hs g) = users g"
  "length (players (set_hands p hs g)) = length (players g)"
  by (simp_all add: set_hands_def)

lemma set_hand_frame [simp]:
  "dealer (set_hand p h x g) = dealer g" "prompt (set_hand p h x g) = prompt g"
  "shown (set_hand p h x g) = shown g" "drawn (set_hand p h x g) = drawn g"
  "users (set_hand p h x g) = users g"
  "length (players (set_hand p h x g)) = length (players g)"
  by (simp_all add: set_hand_def)

lemma quietly_refl [simp]: "quietly g g"
  by (simp add: quietly_def)

lemma inactivity_frame [simp]:
  "players (inactivity g) = players g" "dealer (inactivity g) = dealer g"
  "drawn (inactivity g) = drawn g" "prompt (inactivity g) = prompt g"
  by (simp_all add: inactivity_def)

lemma hand_at_frame [simp]:
  "hand_at (display d g) p h = hand_at g p h"
  "hand_at (inactivity g) p h = hand_at g p h"
  by (simp_all add: hand_at_def player_at_def)

lemma hand_at_drawn [simp]: "hand_at (g\<lparr>drawn := n\<rparr>) p h = hand_at g p h"
  by (simp add: hand_at_def player_at_def)

lemma hand_at_set_hand:
  "hand_at g p h = Some hand \<Longrightarrow> hand_at (set_hand p h x g) p h = Some x"
  by (auto simp: hand_at_def player_at_def set_hand_def set_hands_def split: if_splits)

section \<open>The two paths of the hand sum agree\<close>

lemma rawSum_nonneg: "0 \<le> foldl (\<lambda>s crd. s + value crd) 0 cs"
proof (induction cs rule: rev_induct)
  case Nil
  show ?case by simp
next
  case (snoc c cs)
  then show ?case using value_pos [of c] by simp
qed

lemma rawSum_ace: "list_ex (\<lambda>crd. rank crd = Rank_ACE) cs \<Longrightarrow> 1 \<le> foldl (\<lambda>s crd. s + value crd) 0 cs"
proof (induction cs rule: rev_induct)
  case Nil
  then show ?case by simp
next
  case (snoc c cs)
  then show ?case using value_pos [of c] rawSum_nonneg [of cs] by simp
qed

lemma value_ace: "rank c = Rank_ACE \<Longrightarrow> value c = 1"
  by (simp add: value_def)

text \<open>C6: for every list of cards and every card, the incremental \<open>HandSum.hit\<close> on
  \<open>HandSum.fromCards\<close> of the list gives the sum and the soft flag that
  \<open>HandSum.fromCards\<close> gives on the list with the card appended.\<close>

theorem hit_fromCards: "HandSum_hit crd (fromCards cs) = fromCards (cs @ [crd])"
proof (cases "list_ex (\<lambda>c. rank c = Rank_ACE) cs")
  case True
  from rawSum_ace [OF True] show ?thesis
    using True value_pos [of crd]
    by (auto simp: HandSum_hit_def fromCards_def Let_def value_ace)
next
  case False
  then show ?thesis
    using rawSum_nonneg [of cs] value_pos [of crd]
    by (auto simp: HandSum_hit_def fromCards_def Let_def value_ace)
qed

section \<open>Comparing two hands\<close>

text \<open>C7: \<open>Hand.compare\<close> gives WIN to the hand with the strictly higher total and LOSE
  to the lower one; equal totals other than 21 tie; when both totals are 21, a hand of at
  most two cards beats a hand of more than two, and two hands of at most two cards, or
  two of more than two, tie.\<close>

theorem compare_cases:
  "(sumv (handSum a) > sumv (handSum b) \<longrightarrow>
      compare a b = Result_WIN \<and> compare b a = Result_LOSE)
   \<and> (sumv (handSum a) = sumv (handSum b) \<and> sumv (handSum a) \<noteq> PERFECT \<longrightarrow>
      compare a b = Result_TIE)
   \<and> (sumv (handSum a) = PERFECT \<and> sumv (handSum b) = PERFECT \<longrightarrow>
        (length (cards a) \<le> 2 \<and> length (cards b) > 2 \<longrightarrow>
           compare a b = Result_WIN \<and> compare b a = Result_LOSE)
      \<and> ((length (cards a) \<le> 2) = (length (cards b) \<le> 2) \<longrightarrow> compare a b = Result_TIE))"
  by (auto simp: compare_def Let_def)

text \<open>Ace and king against three sevens, both ways; ten and jack against three sevens;
  ten and jack against queen, two and eight; ace and king against the dealer's ace and
  queen.\<close>

theorem compare_cases_witness:
  "compare (Hand_new [fromId 0 False, fromId 12 False])
     (Hand_new [fromId 6 False, fromId 19 False, fromId 32 False]) = Result_WIN
   \<and> compare (Hand_new [fromId 6 False, fromId 19 False, fromId 32 False])
       (Hand_new [fromId 0 False, fromId 12 False]) = Result_LOSE
   \<and> compare (Hand_new [fromId 9 False, fromId 10 False])
       (Hand_new [fromId 6 False, fromId 19 False, fromId 32 False]) = Result_LOSE
   \<and> compare (Hand_new [fromId 9 False, fromId 10 False])
       (Hand_new [fromId 11 False, fromId 1 False, fromId 7 False]) = Result_TIE
   \<and> compare (Hand_new [fromId 0 False, fromId 12 False])
       (Dealer_new [fromId 13 False, fromId 11 True]) = Result_TIE"
  using
    compare_cases [of "Hand_new [fromId 6 False, fromId 19 False, fromId 32 False]"
      "Hand_new [fromId 0 False, fromId 12 False]"]
    compare_cases [of "Hand_new [fromId 0 False, fromId 12 False]"
      "Hand_new [fromId 6 False, fromId 19 False, fromId 32 False]"]
    compare_cases [of "Hand_new [fromId 6 False, fromId 19 False, fromId 32 False]"
      "Hand_new [fromId 9 False, fromId 10 False]"]
    compare_cases [of "Hand_new [fromId 9 False, fromId 10 False]"
      "Hand_new [fromId 11 False, fromId 1 False, fromId 7 False]"]
    compare_cases [of "Hand_new [fromId 0 False, fromId 12 False]"
      "Dealer_new [fromId 13 False, fromId 11 True]"]
  by (simp add: Hand_new_def Dealer_new_def fromCards_def fromId_def value_def blackjack_def
      Hand.defs Dealer.defs compare_def)

section \<open>The dealer's policy\<close>

text \<open>The dealer's loop, by its hits. It always ends, after some number \<open>n\<close> of hits, and
  the dealer's final hand is the hand before the loop with the next \<open>n\<close> cards of the
  random source, and the final status.\<close>

lemma dealerMove_cases: "dealerMove g = Move_HIT \<or> dealerMove g = Move_STAND"
  by (simp add: dealerMove_def Let_def)

lemma dealerLoop_trace:
  "\<exists>n g'. (\<forall>k<n. dealerMove (g\<lparr>dealer := hits rnd (drawn g) k (dealer g)\<rparr>) = Move_HIT)
     \<and> drawn g' = drawn g + n \<and> players g' = players g
     \<and> (dealerLoop rnd g = Goes g'
          \<and> dealer g' = (hits rnd (drawn g) n (dealer g))\<lparr>status := Status_STAND\<rparr>
          \<and> dealerMove g' = Move_STAND \<and> (0 < n \<longrightarrow> \<not> bust (dealer g'))
        \<or> dealerLoop rnd g = Returned g' \<and> 0 < n
          \<and> dealer g' = (hits rnd (drawn g) n (dealer g))\<lparr>status := Status_BUST\<rparr>
          \<and> bust (dealer g'))"
proof (induction rnd g rule: dealerLoop.induct)
  case (1 rnd g)
  define c where "c = fromRandom rnd (drawn g) False"
  define g1 where "g1 = g\<lparr>dealer := Hand_hit c (dealer g), drawn := drawn g + 1\<rparr>"
  show ?case
  proof (cases "dealerMove g = Move_HIT")
    case False
    with dealerMove_cases [of g] have st: "dealerMove g = Move_STAND" by simp
    then have "dealerLoop rnd g = Goes (g\<lparr>dealer := (dealer g)\<lparr>status := Status_STAND\<rparr>\<rparr>)"
      by (simp add: dealerLoop.simps [of rnd g] dealerStep_def)
    moreover from st have "dealerMove (g\<lparr>dealer := (dealer g)\<lparr>status := Status_STAND\<rparr>\<rparr>) = Move_STAND"
      by (simp add: dealerMove_def)
    ultimately show ?thesis
      by (intro exI [of _ 0] exI [of _ "g\<lparr>dealer := (dealer g)\<lparr>status := Status_STAND\<rparr>\<rparr>"]) simp
  next
    case True
    show ?thesis
    proof (cases "sumv (handSum (dealer g1)) > PERFECT")
      case b: True
      define g' where "g' = display (Note_dealer_bust c) (g1\<lparr>dealer := (dealer g1)\<lparr>status := Status_BUST\<rparr>\<rparr>)"
      from True b have "dealerLoop rnd g = Returned g'"
        by (simp add: dealerLoop.simps [of rnd g] dealerStep_def Let_def g'_def g1_def c_def)
      moreover have "dealer g' = (hits rnd (drawn g) 1 (dealer g))\<lparr>status := Status_BUST\<rparr>"
        by (simp add: g'_def g1_def c_def)
      moreover from b have "bust (dealer g')"
        by (simp add: g'_def bust_def HandSum_bust_def)
      moreover have "drawn g' = drawn g + 1" "players g' = players g"
        by (simp_all add: g'_def g1_def)
      ultimately show ?thesis using True
        by (intro exI [of _ 1] exI [of _ g']) simp
    next
      case nb: False
      define g2 where "g2 = display (Note_dealer_hit c) g1"
      from True nb have s: "dealerStep rnd g = Again g2"
        by (simp add: dealerStep_def Let_def g2_def g1_def c_def)
      have f: "drawn g2 = drawn g + 1" "dealer g2 = Hand_hit c (dealer g)" "players g2 = players g"
        by (simp_all add: g2_def g1_def)
      from "1" [OF s] obtain n g' where
        ih: "\<forall>k<n. dealerMove (g2\<lparr>dealer := hits rnd (drawn g2) k (dealer g2)\<rparr>) = Move_HIT"
          "drawn g' = drawn g2 + n" "players g' = players g2"
          "dealerLoop rnd g2 = Goes g'
            \<and> dealer g' = (hits rnd (drawn g2) n (dealer g2))\<lparr>status := Status_STAND\<rparr>
            \<and> dealerMove g' = Move_STAND \<and> (0 < n \<longrightarrow> \<not> bust (dealer g'))
          \<or> dealerLoop rnd g2 = Returned g' \<and> 0 < n
            \<and> dealer g' = (hits rnd (drawn g2) n (dealer g2))\<lparr>status := Status_BUST\<rparr>
            \<and> bust (dealer g')"
        by blast
      have h: "hits rnd (drawn g2) k (dealer g2) = hits rnd (drawn g) (Suc k) (dealer g)" for k
        by (simp add: f c_def)
      have m: "dealerMove (g2\<lparr>dealer := x\<rparr>) = dealerMove (g\<lparr>dealer := x\<rparr>)" for x
        by (simp add: g2_def g1_def dealerMove_def display_def)
      have a: "\<forall>k<Suc n. dealerMove (g\<lparr>dealer := hits rnd (drawn g) k (dealer g)\<rparr>) = Move_HIT"
      proof (intro allI impI)
        fix k assume "k < Suc n"
        show "dealerMove (g\<lparr>dealer := hits rnd (drawn g) k (dealer g)\<rparr>) = Move_HIT"
        proof (cases k)
          case 0
          with True show ?thesis by simp
        next
          case (Suc j)
          with \<open>k < Suc n\<close> ih(1) have "dealerMove (g2\<lparr>dealer := hits rnd (drawn g2) j (dealer g2)\<rparr>) = Move_HIT"
            by simp
          with Suc show ?thesis by (simp only: h m)
        qed
      qed
      have l: "dealerLoop rnd g = dealerLoop rnd g2"
        using s by (simp add: dealerLoop.simps [of rnd g])
      from nb have nb2: "\<not> bust (dealer g2)"
        by (simp add: g2_def bust_def HandSum_bust_def)
      from ih(4) have ih4: "dealerLoop rnd g = Goes g'
            \<and> dealer g' = (hits rnd (drawn g) (Suc n) (dealer g))\<lparr>status := Status_STAND\<rparr>
            \<and> dealerMove g' = Move_STAND \<and> \<not> bust (dealer g')
          \<or> dealerLoop rnd g = Returned g'
            \<and> dealer g' = (hits rnd (drawn g) (Suc n) (dealer g))\<lparr>status := Status_BUST\<rparr>
            \<and> bust (dealer g')"
      proof (elim disjE conjE)
        assume x: "dealerLoop rnd g2 = Goes g'"
          "dealer g' = (hits rnd (drawn g2) n (dealer g2))\<lparr>status := Status_STAND\<rparr>"
          "dealerMove g' = Move_STAND" "0 < n \<longrightarrow> \<not> bust (dealer g')"
        have "\<not> bust (dealer g')"
        proof (cases n)
          case 0
          with x(2) nb2 show ?thesis by (simp add: bust_def)
        next
          case (Suc j)
          with x(4) show ?thesis by simp
        qed
        with x(1,2,3) show ?thesis by (simp only: h l) simp
      next
        assume x: "dealerLoop rnd g2 = Returned g'"
          "dealer g' = (hits rnd (drawn g2) n (dealer g2))\<lparr>status := Status_BUST\<rparr>"
          "bust (dealer g')"
        then show ?thesis by (simp only: h l) simp
      qed
      from ih(2,3) f have "drawn g' = drawn g + Suc n" "players g' = players g" by simp_all
      with a ih4 show ?thesis
        by (intro exI [of _ "Suc n"] exI [of _ g']) auto
    qed
  qed
qed

text \<open>C8: the dealer's move is a function of the dealer's hand sum alone: HIT exactly
  when the total is below 17, or is 17 and soft, and STAND otherwise. The dealer's loop
  always ends, after some number \<open>n\<close> of hits: the policy said HIT on the hand before
  each of them, each took the next card of the random source, and the players are
  untouched. It ends in one of two ways only. Either the dealer stands: the loop is left
  with the status STAND on the hand with these \<open>n\<close> cards, a hand on which the policy
  says STAND, and which is not bust if a card was hit. Or the last card hit busts the
  dealer: \<open>runGame\<close> returns with the status BUST on the hand with these \<open>n\<close> cards,
  whose total is above 21.\<close>

theorem dealer_policy:
  "(dealerMove g = Move_HIT \<longleftrightarrow>
      sumv (handSum (dealer g)) < 17
      \<or> sumv (handSum (dealer g)) = 17 \<and> soft (handSum (dealer g)))
   \<and> (dealerMove g = Move_STAND \<longleftrightarrow>
      \<not> (sumv (handSum (dealer g)) < 17
         \<or> sumv (handSum (dealer g)) = 17 \<and> soft (handSum (dealer g))))
   \<and> (handSum (dealer g) = handSum (dealer g2) \<longrightarrow> dealerMove g = dealerMove g2)
   \<and> (\<exists>n g'. (\<forall>k<n. dealerMove (g\<lparr>dealer := hits rnd (drawn g) k (dealer g)\<rparr>) = Move_HIT)
        \<and> drawn g' = drawn g + n \<and> players g' = players g
        \<and> (dealerLoop rnd g = Goes g'
             \<and> dealer g' = (hits rnd (drawn g) n (dealer g))\<lparr>status := Status_STAND\<rparr>
             \<and> dealerMove g' = Move_STAND \<and> (0 < n \<longrightarrow> \<not> bust (dealer g'))
           \<or> dealerLoop rnd g = Returned g' \<and> 0 < n
             \<and> dealer g' = (hits rnd (drawn g) n (dealer g))\<lparr>status := Status_BUST\<rparr>
             \<and> bust (dealer g')))"
  using dealerLoop_trace [where g = g and rnd = rnd] by (auto simp: dealerMove_def Let_def)

text \<open>The dealer with ten and six hits a ten and busts at 26, with three cards; the
  dealer with ten and seven stands at once, with two cards.\<close>

theorem dealer_policy_witness:
  "sumv (handSum (dealer table16)) = 16 \<and> \<not> soft (handSum (dealer table16))
   \<and> dealerMove table16 = Move_HIT
   \<and> dealerLoop (shoe [9, 8, 9, 5, 9]) table16
       = Returned (the (gone (dealerLoop (shoe [9, 8, 9, 5, 9]) table16)))
   \<and> map_option (map value \<circ> cards \<circ> dealer) (gone (dealerLoop (shoe [9, 8, 9, 5, 9]) table16))
       = Some [10, 6, 10]
   \<and> map_option (status \<circ> dealer) (gone (dealerLoop (shoe [9, 8, 9, 5, 9]) table16))
       = Some Status_BUST
   \<and> map_option drawn (gone (dealerLoop (shoe [9, 8, 9, 5, 9]) table16)) = Some 5
   \<and> dealerMove table17 = Move_STAND
   \<and> dealerLoop (shoe [9, 5, 9, 6]) table17
       = Goes (the (gone (dealerLoop (shoe [9, 5, 9, 6]) table17)))
   \<and> map_option (map value \<circ> cards \<circ> dealer) (gone (dealerLoop (shoe [9, 5, 9, 6]) table17))
       = Some [10, 7]
   \<and> map_option drawn (gone (dealerLoop (shoe [9, 5, 9, 6]) table17)) = Some 4"
proof -
  have e: "sumv (handSum (dealer table16)) = 16 \<and> \<not> soft (handSum (dealer table16))
    \<and> dealerLoop (shoe [9, 8, 9, 5, 9]) table16
       = Returned (the (gone (dealerLoop (shoe [9, 8, 9, 5, 9]) table16)))
    \<and> map_option (map value \<circ> cards \<circ> dealer) (gone (dealerLoop (shoe [9, 8, 9, 5, 9]) table16))
       = Some [10, 6, 10]
    \<and> map_option (status \<circ> dealer) (gone (dealerLoop (shoe [9, 8, 9, 5, 9]) table16))
       = Some Status_BUST
    \<and> map_option drawn (gone (dealerLoop (shoe [9, 8, 9, 5, 9]) table16)) = Some 5
    \<and> dealerLoop (shoe [9, 5, 9, 6]) table17
       = Goes (the (gone (dealerLoop (shoe [9, 5, 9, 6]) table17)))
    \<and> map_option (map value \<circ> cards \<circ> dealer) (gone (dealerLoop (shoe [9, 5, 9, 6]) table17))
       = Some [10, 7]
    \<and> map_option drawn (gone (dealerLoop (shoe [9, 5, 9, 6]) table17)) = Some 4"
    by code_simp
  have s: "sumv (handSum (dealer table17)) = 17 \<and> \<not> soft (handSum (dealer table17))"
    by code_simp
  from dealer_policy [of table16 table16 "shoe [9, 8, 9, 5, 9]"] e
  have 1: "dealerMove table16 = Move_HIT" by simp
  from dealer_policy [of table17 table17 "shoe [9, 5, 9, 6]"] s
  have 2: "dealerMove table17 = Move_STAND" by simp
  from e 1 2 show ?thesis by simp
qed

section \<open>Hit and double down\<close>

text \<open>What HIT and DOUBLE do to a hand in its turn whose total is not 21. HIT draws one
  card and leaves the status as it is; the turn ends exactly when the hand is bust.
  DOUBLE draws one card and ends the turn; the status is left as it is when the hand is
  bust, and becomes SURRENDER otherwise.\<close>

lemma Hand_hit_status: "status (Hand_hit crd hand) = status hand"
  by (simp add: Hand_hit_def)

lemma hit_turn:
  assumes "hand_at g p h = Some hand" and "sumv (handSum hand) \<noteq> PERFECT"
  shows "\<exists>g'. hand_at g' p h = Some (Hand_hit (fromRandom rnd (drawn g) False) hand)
     \<and> drawn g' = drawn g + 1
     \<and> handMove rnd p h Move_HIT g =
         (if bust (Hand_hit (fromRandom rnd (drawn g) False) hand) then Break g' else Again g')"
  using assms by (simp add: handMove_def Let_def hand_at_set_hand)

lemma double_turn:
  assumes "hand_at g p h = Some hand" and "sumv (handSum hand) \<noteq> PERFECT"
  shows "\<exists>g'. handMove rnd p h Move_DOUBLE g = Break g' \<and> drawn g' = drawn g + 1
     \<and> hand_at g' p h =
         Some (if bust (Hand_hit (fromRandom rnd (drawn g) False) hand)
               then Hand_hit (fromRandom rnd (drawn g) False) hand
               else (Hand_hit (fromRandom rnd (drawn g) False) hand)
                      \<lparr>status := Status_SURRENDER\<rparr>)"
  using assms by (simp add: handMove_def Let_def hand_at_set_hand)

text \<open>C3: a player holds ten and five and writes "h"; the card drawn is a ten. The hand
  busts at 25 and its turn ends (the dealer, with ten and seven, plays next without
  another message), but the status of the hand is still CURRENT, not BUST. The round
  then announces "You lost!" with the bust and "You won!" at the settlement.\<close>

theorem hit_bust_keeps_status:
  "map_option statuses (final (runGame (shoe [9, 4, 9, 6, 9]) [1] [[msg 1 ''h'']]))
     = Some [[Status_CURRENT]]
   \<and> map_option sums (final (runGame (shoe [9, 4, 9, 6, 9]) [1] [[msg 1 ''h'']]))
     = Some [[25]]
   \<and> map_option shown (final (runGame (shoe [9, 4, 9, 6, 9]) [1] [[msg 1 ''h'']]))
     = Some [Note_prompt, Note_hit_bust (fromId 9 False),
             Note_dealer_reveal (fromId 6 False), Note_result Result_WIN]"
  by code_simp

text \<open>C2: a player holds five and six and writes "d"; the card drawn is a nine. The
  hand stands at 20 with one card drawn and its turn ends, but its status is SURRENDER,
  not DOUBLE. A player who holds ten and five, writes "d" and draws a ten busts at 25,
  and the status of the hand is still CURRENT, not BUST.\<close>

theorem double_sets_surrender:
  "map_option statuses (final (runGame (shoe [4, 5, 9, 6, 8]) [1] [[msg 1 ''d'']]))
     = Some [[Status_SURRENDER]]
   \<and> map_option sums (final (runGame (shoe [4, 5, 9, 6, 8]) [1] [[msg 1 ''d'']]))
     = Some [[20]]
   \<and> map_option drawn (final (runGame (shoe [4, 5, 9, 6, 8]) [1] [[msg 1 ''d'']]))
     = Some 5
   \<and> map_option statuses (final (runGame (shoe [9, 4, 9, 6, 9]) [1] [[msg 1 ''d'']]))
     = Some [[Status_CURRENT]]
   \<and> map_option sums (final (runGame (shoe [9, 4, 9, 6, 9]) [1] [[msg 1 ''d'']]))
     = Some [[25]]"
  by code_simp

section \<open>Split\<close>

lemma pair_not_perfect: "value c0 = value c1 \<Longrightarrow> sumv (fromCards [c0, c1]) \<noteq> PERFECT"
  by (auto simp: fromCards_def value_def Let_def split: if_splits)

text \<open>C9: for a hand in its turn, with at least two cards and its sum that of its
  cards (every hand of a round is so, see \<open>sound\<close> below), a SPLIT is accepted exactly when the hand has two cards of equal \<open>value()\<close>.
  Accepted, the hand keeps its first card and draws one, a new hand with the second
  card and one card drawn is inserted right after it, and two cards have been drawn.
  Rejected, the players (so the cards, sum and status of the hand, and the hand list),
  the dealer and the random source are as before: only a message is displayed. Either
  way the loop of the same hand goes round again.\<close>

theorem split_rule:
  assumes "hand_at g p h = Some hand" and "2 \<le> length (cards hand)"
    and "handSum hand = fromCards (cards hand)"
  shows "\<exists>g'. handMove rnd p h Move_SPLIT g = Again g' \<and>
    (if length (cards hand) = 2 \<and> value (cards hand ! 0) = value (cards hand ! 1)
     then hand_at g' p h = Some (Hand_hit (fromRandom rnd (drawn g) False)
              (hand\<lparr>cards := [cards hand ! 0], handSum := fromCards [cards hand ! 0]\<rparr>))
        \<and> hand_at g' p (h + 1) = Some (Hand_hit (fromRandom rnd (drawn g + 1) False)
              (Hand_new [cards hand ! 1]))
        \<and> length (hands (players g' ! p)) = length (hands (players g ! p)) + 1
        \<and> drawn g' = drawn g + 2
     else players g' = players g \<and> dealer g' = dealer g \<and> drawn g' = drawn g
        \<and> users g' = users g)"
proof -
  from assms(1) have p: "p < length (players g)" and h: "h < length (hands (players g ! p))"
    by (auto dest: hand_at_SomeD)
  from assms(2) obtain c0 c1 rest where cs: "cards hand = c0 # c1 # rest"
    by (cases "cards hand"; cases "tl (cards hand)") auto
  show ?thesis
  proof (cases "rest = []")
    case False
    then show ?thesis using assms(1) cs by (simp add: handMove_def)
  next
    case True
    show ?thesis
    proof (cases "value c0 = value c1")
      case False
      then show ?thesis using assms(1) cs True by (simp add: handMove_def)
    next
      case eq: True
      with assms(3) cs True have "sumv (handSum hand) \<noteq> PERFECT"
        using pair_not_perfect [of c0 c1] by simp
      then show ?thesis using assms(1) cs True eq p h
        by (auto simp: handMove_def Let_def hand_at_def player_at_def set_hands_def
            nth_append min_def)
    qed
  qed
qed

text \<open>The ten of clubs and the queen of diamonds are split into hands of 13 and 14;
  with the ten of clubs and the nine of diamonds the players stay as they are.\<close>

theorem split_rule_witness:
  "hand_at tableTQ 0 0 = Some (Hand_new [fromId 9 False, fromId 24 False])
   \<and> map_option sums (after (handMove (shoe [9, 24, 9, 6, 2, 3]) 0 0 Move_SPLIT tableTQ))
       = Some [[13, 14]]
   \<and> hand_at tableT9 0 0 = Some (Hand_new [fromId 9 False, fromId 21 False])
   \<and> map_option players (after (handMove (shoe [9, 21, 9, 6, 2, 3]) 0 0 Move_SPLIT tableT9))
       = Some (players tableT9)"
proof -
  have a: "hand_at tableTQ 0 0 = Some (Hand_new [fromId 9 False, fromId 24 False])"
    by code_simp
  have b: "2 \<le> length (cards (Hand_new [fromId 9 False, fromId 24 False]))"
    by code_simp
  have c: "handSum (Hand_new [fromId 9 False, fromId 24 False])
      = fromCards (cards (Hand_new [fromId 9 False, fromId 24 False]))"
    by code_simp
  have a': "hand_at tableT9 0 0 = Some (Hand_new [fromId 9 False, fromId 21 False])"
    by code_simp
  have b': "2 \<le> length (cards (Hand_new [fromId 9 False, fromId 21 False]))"
    by code_simp
  have c': "handSum (Hand_new [fromId 9 False, fromId 21 False])
      = fromCards (cards (Hand_new [fromId 9 False, fromId 21 False]))"
    by code_simp
  have e: "map_option sums (after (handMove (shoe [9, 24, 9, 6, 2, 3]) 0 0 Move_SPLIT tableTQ))
       = Some [[13, 14]]"
    by code_simp
  have v: "\<not> (length (cards (Hand_new [fromId 9 False, fromId 21 False])) = 2 \<and>
      value (cards (Hand_new [fromId 9 False, fromId 21 False]) ! 0)
       = value (cards (Hand_new [fromId 9 False, fromId 21 False]) ! 1))"
    by code_simp
  from split_rule [OF a' b' c', of "shoe [9, 21, 9, 6, 2, 3]"] v
  have "map_option players (after (handMove (shoe [9, 21, 9, 6, 2, 3]) 0 0 Move_SPLIT tableT9))
       = Some (players tableT9)"
    by auto
  with split_rule [OF a b c, of "shoe [9, 24, 9, 6, 2, 3]"] a a' e show ?thesis
    by simp
qed

section \<open>Settlement\<close>

lemma dealerStep_cases:
  "(\<exists>g'. dealerStep rnd g = Again g' \<and> players g' = players g
        \<and> settled (shown g') = settled (shown g))
   \<or> (\<exists>g'. dealerStep rnd g = Break g' \<and> players g' = players g \<and> shown g' = shown g
        \<and> status (dealer g') = Status_STAND \<and> handSum (dealer g') = handSum (dealer g)
        \<and> dealerMove g = Move_STAND)
   \<or> (\<exists>g'. dealerStep rnd g = Returns g' \<and> players g' = players g
        \<and> settled (shown g') = settled (shown g) @ [Result_WIN]
        \<and> status (dealer g') = Status_BUST \<and> bust (dealer g'))"
  by (auto simp: dealerStep_def dealerMove_def Let_def settled_append bust_def HandSum_bust_def
      display_def)

lemma dealerLoop_result:
  "(\<exists>g'. dealerLoop rnd g = Goes g' \<and> players g' = players g
        \<and> settled (shown g') = settled (shown g)
        \<and> status (dealer g') = Status_STAND)
   \<or> (\<exists>g'. dealerLoop rnd g = Returned g' \<and> players g' = players g
        \<and> settled (shown g') = settled (shown g) @ [Result_WIN]
        \<and> status (dealer g') = Status_BUST \<and> bust (dealer g'))"
proof (induction rnd g rule: dealerLoop.induct)
  case (1 rnd g)
  from dealerStep_cases [of rnd g] show ?case
  proof (elim disjE exE conjE)
    fix g' assume a: "dealerStep rnd g = Again g'" "players g' = players g"
      "settled (shown g') = settled (shown g)"
    from "1" [OF a(1)] a show ?thesis
      by (simp add: dealerLoop.simps [of rnd g])
  next
    fix g' assume "dealerStep rnd g = Break g'" "players g' = players g" "shown g' = shown g"
      "status (dealer g') = Status_STAND"
    then show ?thesis by (simp add: dealerLoop.simps [of rnd g])
  next
    fix g' assume "dealerStep rnd g = Returns g'" "players g' = players g"
      "settled (shown g') = settled (shown g) @ [Result_WIN]"
      "status (dealer g') = Status_BUST" "bust (dealer g')"
    then show ?thesis by (simp add: dealerLoop.simps [of rnd g])
  qed
qed




section \<open>The dealer's natural\<close>

lemma deal_first:
  "us \<noteq> [] \<Longrightarrow> hand_at (deal rnd us) 0 0 = Some (Hand_deal rnd 0)"
  by (cases us) (simp_all add: deal_def hand_at_def player_at_def Player_deal_def)

lemma reveal_deal:
  "\<exists>d. reveal (dealer (deal rnd us)) = Some (fromRandom rnd (2 * length us + 1) False, d)
     \<and> \<not> hidden d \<and> list_all (\<lambda>c. \<not> down c) (cards d)"
  by (simp add: reveal_def deal_def Dealer_deal_def fromRandom_def fromId_def Let_def)

lemma runGame_natural:
  assumes "sumv (handSum (dealer (deal rnd us))) = PERFECT" and "us \<noteq> []"
  shows "\<exists>d. \<not> hidden d \<and> list_all (\<lambda>c. \<not> down c) (cards d)
     \<and> runGame rnd us ws = Finished (display (Note_dealer_blackjack
          (if sumv (handSum (Hand_deal rnd 0)) = PERFECT then Result_TIE else Result_LOSE))
        ((deal rnd us)\<lparr>dealer := d\<rparr>))"
proof -
  from reveal_deal [of rnd us] obtain d where
    d: "reveal (dealer (deal rnd us)) = Some (fromRandom rnd (2 * length us + 1) False, d)"
      "\<not> hidden d" "list_all (\<lambda>c. \<not> down c) (cards d)"
    by (elim exE conjE)
  have "runGame rnd us ws = Finished (display (Note_dealer_blackjack
          (if sumv (handSum (Hand_deal rnd 0)) = PERFECT then Result_TIE else Result_LOSE))
        ((deal rnd us)\<lparr>dealer := d\<rparr>))"
    unfolding runGame_def Let_def
    by (simp only: assms(1) simp_thms if_True d(1) deal_first [OF assms(2)]
        option.case prod.case)
  with d(2,3) show ?thesis by blast
qed

text \<open>Two players, the first with ten and nine, the second with ace and king; the dealer
  has ace and king. The dealer's total is 21, the second player's too, and the one
  result announced is LOSE: the claim gives LOSE to the first and TIE to the second.\<close>

theorem dealer_natural_counterexample:
  "sumv (handSum (dealer (deal (shoe [9, 8, 0, 12, 0, 12]) [1, 2]))) = 21
   \<and> map_option sums (final (runGame (shoe [9, 8, 0, 12, 0, 12]) [1, 2] []))
       = Some [[19], [21]]
   \<and> map_option (settled \<circ> shown) (final (runGame (shoe [9, 8, 0, 12, 0, 12]) [1, 2] []))
       = Some [Result_LOSE]
   \<and> map_option (settled \<circ> shown) (final (runGame (shoe [9, 8, 0, 12, 0, 12]) [1, 2] []))
       \<noteq> Some [Result_LOSE, Result_TIE]"
  by code_simp

text \<open>C5, amended: when the dealer's two cards total 21 and there is a player,
  \<open>runGame\<close> returns whatever the players write: the dealer's hand is revealed (not
  hidden, no card face down), the players are exactly as dealt (nobody has had a turn)
  and no further card has been drawn, and the one thing displayed is DEALER BLACKJACK
  with the result of the first player's hand: TIE when it totals 21 too, LOSE
  otherwise.\<close>

theorem dealer_natural:
  assumes "sumv (handSum (dealer (deal rnd us))) = PERFECT" and "us \<noteq> []"
  shows "\<exists>g'. runGame rnd us ws = Finished g'
     \<and> \<not> hidden (dealer g') \<and> list_all (\<lambda>c. \<not> down c) (cards (dealer g'))
     \<and> players g' = players (deal rnd us) \<and> drawn g' = drawn (deal rnd us)
     \<and> shown g' = [Note_dealer_blackjack
           (if sumv (handSum (Hand_deal rnd 0)) = PERFECT then Result_TIE else Result_LOSE)]"
proof -
  have s: "shown (deal rnd us) = []" by (simp add: deal_def)
  from runGame_natural [OF assms, of ws] obtain d where
    d: "\<not> hidden d" "list_all (\<lambda>c. \<not> down c) (cards d)"
      "runGame rnd us ws = Finished (display (Note_dealer_blackjack
          (if sumv (handSum (Hand_deal rnd 0)) = PERFECT then Result_TIE else Result_LOSE))
        ((deal rnd us)\<lparr>dealer := d\<rparr>))"
    by (elim exE conjE)
  from d s show ?thesis by simp
qed

text \<open>One player with ace and king against the dealer's ace and king: a tie, whatever
  the player writes.\<close>

theorem dealer_natural_witness:
  "sumv (handSum (dealer (deal (shoe [0, 12, 13, 25]) [1]))) = 21
   \<and> map_option shown (final (runGame (shoe [0, 12, 13, 25]) [1] [[msg 1 ''h'']]))
       = Some [Note_dealer_blackjack Result_TIE]"
proof -
  have a: "sumv (handSum (dealer (deal (shoe [0, 12, 13, 25]) [1]))) = 21" by code_simp
  have b: "[1::nat] \<noteq> []" by simp
  have e: "sumv (handSum (Hand_deal (shoe [0, 12, 13, 25]) 0)) = 21" by code_simp
  from dealer_natural [OF a b, of "[[msg 1 ''h'']]"] a e show ?thesis by auto
qed

section \<open>A hand dealt as a blackjack\<close>



section \<open>What the turns of the players leave in the prompt\<close>

text \<open>The turns of the players never touch the dealer, never announce a settlement and
  never return from \<open>runGame\<close>. They write no inactivity notice as long as they go
  on, and exactly one, last, when a move acquisition times out.\<close>

lemma quietly_trans: "quietly g g1 \<Longrightarrow> quietly g1 g2 \<Longrightarrow> quietly g g2"
  by (simp add: quietly_def)

lemma quietly_lapsed: "quietly g g1 \<Longrightarrow> lapsed g1 g2 \<Longrightarrow> lapsed g g2"
  by (simp add: quietly_def lapsed_def)

lemma handMove_quietly:
  "(handMove rnd p h m g = Again g' \<or> handMove rnd p h m g = Break g') \<Longrightarrow>
     quietly g g' \<and> (prompt g \<longrightarrow> prompt g') \<and> length (players g') = length (players g)"
  by (auto simp: handMove_def Let_def quietly_def settled_append
      split: option.splits Move.splits if_splits list.splits)

lemma handMove_not_Returns: "handMove rnd p h m g \<noteq> Returns g'"
  by (auto simp: handMove_def Let_def split: option.splits Move.splits if_splits list.splits)

lemma inactivity_lapsed: "prompt g \<Longrightarrow> lapsed g (inactivity g)"
  by (simp add: lapsed_def inactivity_def settled_append)

lemma handLoop_log:
  "prompt g \<Longrightarrow>
     (handLoop rnd p h ws g = Goes (ws', g') \<longrightarrow> prompt g' \<and> quietly g g' \<and> length (players g') = length (players g))
     \<and> (handLoop rnd p h ws g = Pending g' \<longrightarrow> lapsed g g')
     \<and> handLoop rnd p h ws g \<noteq> Returned g'"
proof (induction ws arbitrary: g)
  case Nil
  then show ?case by (auto simp: inactivity_lapsed split: option.splits)
next
  case (Cons w ws)
  show ?case
  proof (cases "player_at g p")
    case None
    then show ?thesis by simp
  next
    case (Some pl)
    show ?thesis
    proof (cases "Player_move pl w g")
      case (Inl g1)
      with Some Cons.prems show ?thesis
        by (auto dest!: Player_move_Inl simp: inactivity_lapsed)
    next
      case (Inr m)
      show ?thesis
      proof (cases "handMove rnd p h m g")
        case (Again g1)
        with handMove_quietly [of rnd p h m g g1] Cons.prems
        have q: "quietly g g1" "prompt g1" "length (players g1) = length (players g)" by auto
        from Cons.IH [OF q(2)] q(1,3) Some Inr Again show ?thesis
          by (auto intro: quietly_trans quietly_lapsed)
      next
        case (Break g1)
        with handMove_quietly [of rnd p h m g g1] Cons.prems Some Inr show ?thesis
          by auto
      next
        case (Returns g1)
        then show ?thesis using handMove_not_Returns by blast
      next
        case Throws
        with Some Inr show ?thesis by simp
      qed
    qed
  qed
qed

lemma handTurn_log:
  "prompt g \<Longrightarrow>
     (handTurn rnd p h ws g = Goes (ws', g') \<longrightarrow> prompt g' \<and> quietly g g')
     \<and> (handTurn rnd p h ws g = Pending g' \<longrightarrow> lapsed g g')
     \<and> handTurn rnd p h ws g \<noteq> Returned g'"
proof (cases "hand_at g p h")
  case None
  then show ?thesis by (simp add: handTurn_def)
next
  case (Some hand)
  assume "prompt g"
  then have "prompt (set_hand p h (hand\<lparr>status := Status_CURRENT\<rparr>) g)" by simp
  from handLoop_log [OF this, of rnd p h ws ws' g'] Some show ?thesis
    by (simp add: handTurn_def quietly_def lapsed_def)
qed

lemma handsLoop_log:
  "prompt g \<Longrightarrow>
     (handsLoop rnd p h ws g = Goes (ws', g') \<longrightarrow> prompt g' \<and> quietly g g')
     \<and> (handsLoop rnd p h ws g = Pending g' \<longrightarrow> lapsed g g')
     \<and> handsLoop rnd p h ws g \<noteq> Returned g'"
proof (induction rnd p h ws g rule: handsLoop.induct)
  case (1 rnd p h ws g)
  show ?case
  proof (cases "player_at g p")
    case None
    then show ?thesis by (simp add: handsLoop.simps [of rnd p h ws g])
  next
    case (Some pl)
    show ?thesis
    proof (cases "h < length (hands pl)")
      case False
      with Some "1.prems" show ?thesis by (auto simp: handsLoop.simps [of rnd p h ws g])
    next
      case True
      show ?thesis
      proof (cases "handTurn rnd p h ws g")
        case (Goes x)
        obtain ws1 g1 where x: "x = (ws1, g1)" by (cases x)
        from handTurn_log [OF "1.prems", of rnd p h ws ws1 g1] Goes x
        have q: "prompt g1" "quietly g g1" by auto
        from "1.IH" [OF Some True Goes x [symmetric] q(1)] q(2) Some True Goes x
        show ?thesis
          by (auto simp: handsLoop.simps [of rnd p h ws g] intro: quietly_trans quietly_lapsed)
      next
        case (Returned g1)
        with handTurn_log [OF "1.prems", of rnd p h ws ws' g1] show ?thesis by simp
      next
        case (Pending g1)
        with handTurn_log [OF "1.prems", of rnd p h ws ws' g1] Some True show ?thesis
          by (auto simp: handsLoop.simps [of rnd p h ws g])
      next
        case Threw
        with Some True show ?thesis by (simp add: handsLoop.simps [of rnd p h ws g])
      qed
    qed
  qed
qed

lemma display_quietly: "settles d = None \<Longrightarrow> d \<noteq> Note_inactivity \<Longrightarrow> quietly g (display d g)"
  by (simp add: quietly_def settled_append)

lemma playersLoop_log:
  "(playersLoop rnd ps ws g = Goes (ws', g') \<longrightarrow> quietly g g')
   \<and> (playersLoop rnd ps ws g = Pending g' \<longrightarrow> lapsed g g')
   \<and> playersLoop rnd ps ws g \<noteq> Returned g'"
proof (induction ps arbitrary: ws g)
  case Nil
  show ?case by simp
next
  case (Cons p ps)
  have pr: "prompt (display Note_prompt g)" by simp
  have q0: "quietly g (display Note_prompt g)" by (simp add: display_quietly)
  show ?case
  proof (cases "handsLoop rnd p 0 ws (display Note_prompt g)")
    case (Goes x)
    obtain ws1 g1 where x: "x = (ws1, g1)" by (cases x)
    from handsLoop_log [OF pr, of rnd p 0 ws ws1 g1] Goes x
    have q: "quietly (display Note_prompt g) g1" by auto
    from Cons.IH [of ws1 g1] q q0 Goes x show ?thesis
      by (auto intro: quietly_trans quietly_lapsed)
  next
    case (Returned g1)
    with handsLoop_log [OF pr, of rnd p 0 ws ws' g1] show ?thesis by simp
  next
    case (Pending g1)
    with handsLoop_log [OF pr, of rnd p 0 ws ws' g1] q0 show ?thesis
      by (auto intro: quietly_lapsed)
  next
    case Threw
    then show ?thesis by simp
  qed
qed

lemma dealerTurn_not_Suspended: "dealerTurn rnd g \<noteq> Suspended g'"
proof (cases "reveal (dealer (g\<lparr>dealer := (dealer g)\<lparr>status := Status_CURRENT\<rparr>\<rparr>))")
  case None
  then show ?thesis by (simp add: dealerTurn_def Let_def)
next
  case (Some x)
  obtain c d where x: "x = (c, d)" by (cases x)
  show ?thesis
    using dealerLoop_result [of rnd
        "display (Note_dealer_reveal c) (g\<lparr>dealer := d\<rparr>)"] Some x
    by (auto simp: dealerTurn_def Let_def outcome_def settle_def split: option.splits)
qed

lemma runGame_Suspended:
  assumes "runGame rnd us ws = Suspended g'"
  shows "lapsed (deal rnd us) g'"
proof -
  from assms have n: "sumv (handSum (dealer (deal rnd us))) \<noteq> PERFECT"
    by (auto simp: runGame_def Let_def split: if_splits option.splits)
  show ?thesis
  proof (cases "playersLoop rnd [0..<length (players (deal rnd us))] ws (deal rnd us)")
    case (Goes x)
    with assms n show ?thesis
      by (auto simp: runGame_def Let_def outcome_def dealerTurn_not_Suspended split: prod.splits)
  next
    case (Returned g1)
    with playersLoop_log [of rnd "[0..<length (players (deal rnd us))]" ws "deal rnd us" ws g1]
    show ?thesis by simp
  next
    case (Pending g1)
    with playersLoop_log [of rnd "[0..<length (players (deal rnd us))]" ws "deal rnd us" ws g1]
      assms n show ?thesis
      by (simp add: runGame_def Let_def outcome_def)
  next
    case Threw
    with assms n show ?thesis by (simp add: runGame_def Let_def outcome_def)
  qed
qed

section \<open>Every game of a round is sound, and no round throws\<close>

text \<open>The deal is sound when there is a user, every round of a loop keeps the game
  sound, and on a sound game no element that the code reads is undefined: \<open>runGame\<close>
  never throws.\<close>

lemma Hand_hit_agrees:
  assumes "handSum hand = fromCards (cards hand)"
  shows "handSum (Hand_hit crd hand) = fromCards (cards hand @ [crd])"
proof -
  have r: "0 \<le> foldl (\<lambda>s crd. s + value crd) 0 (cards hand)" by (rule rawSum_nonneg)
  have a: "list_ex (\<lambda>c. rank c = Rank_ACE) (cards hand)
      \<Longrightarrow> 1 \<le> foldl (\<lambda>s crd. s + value crd) 0 (cards hand)"
    by (rule rawSum_ace)
  from r a value_pos [of crd] show ?thesis
    unfolding Hand_hit_def
    by (cases "list_ex (\<lambda>c. rank c = Rank_ACE) (cards hand)")
      (auto simp: assms HandSum_hit_def fromCards_def Let_def value_ace)
qed

lemma sound_hand_new: "sound_hand (Hand_new [c0, c1])"
  by (simp add: sound_hand_def)

lemma sound_hand_status [simp]: "sound_hand (hand\<lparr>status := s\<rparr>) = sound_hand hand"
  by (simp add: sound_hand_def)

lemma sound_hand_hit: "sound_hand hand \<Longrightarrow> sound_hand (Hand_hit crd hand)"
  using Hand_hit_agrees [of hand crd] by (simp add: sound_hand_def Hand_hit_def)

lemma sound_hand_hit_one:
  "length (cards hand) = 1 \<Longrightarrow> handSum hand = fromCards (cards hand)
     \<Longrightarrow> sound_hand (Hand_hit crd hand)"
  using Hand_hit_agrees [of hand crd] by (simp add: sound_hand_def Hand_hit_def)

lemma sound_display [simp]: "sound (display d g) = sound g"
  by (simp add: sound_def)

lemma sound_drawn [simp]: "sound (g\<lparr>drawn := n\<rparr>) = sound g"
  by (simp add: sound_def)

lemma sound_inactivity [simp]: "sound (inactivity g) = sound g"
  by (simp add: sound_def)

lemma sound_set_hands:
  "sound g \<Longrightarrow> hs \<noteq> [] \<Longrightarrow> list_all sound_hand hs \<Longrightarrow> sound (set_hands p hs g)"
  by (auto simp: sound_def set_hands_def list_all_iff dest!: set_update_subset_insert [THEN subsetD])

lemma sound_set_hand:
  "sound g \<Longrightarrow> hand_at g p h = Some hand \<Longrightarrow> sound_hand x \<Longrightarrow> sound (set_hand p h x g)"
  unfolding set_hand_def
  by (rule sound_set_hands)
     (auto simp: sound_def list_all_iff dest!: hand_at_SomeD set_update_subset_insert [THEN subsetD])

lemma sound_hand_at: "sound g \<Longrightarrow> hand_at g p h = Some hand \<Longrightarrow> sound_hand hand"
  by (auto simp: sound_def list_all_length dest!: hand_at_SomeD)

lemma set_hands_hands:
  "p < length (players g) \<Longrightarrow> hands (players (set_hands p hs g) ! p) = hs"
  by (simp add: set_hands_def)

lemma set_hand_hands:
  "p < length (players g) \<Longrightarrow>
     length (hands (players (set_hand p h x g) ! p)) = length (hands (players g ! p))"
  by (simp add: set_hand_def set_hands_def)

text \<open>A round of the loop of a hand keeps the game sound, keeps the number of players,
  and does not shorten the hand list of the player.\<close>

lemma handMove_sound:
  assumes "sound g" and "handMove rnd p h m g = Again g' \<or> handMove rnd p h m g = Break g'"
  shows "sound g' \<and> length (players g') = length (players g)
     \<and> length (hands (players g ! p)) \<le> length (hands (players g' ! p))"
proof -
  from assms(2) obtain hand where ha: "hand_at g p h = Some hand"
    by (auto simp: handMove_def split: option.splits)
  then have p: "p < length (players g)" and h: "h < length (hands (players g ! p))"
    by (auto dest: hand_at_SomeD)
  from assms(1) ha have sh: "sound_hand hand" by (rule sound_hand_at)
  have hit: "\<And>crd n. sound (set_hand p h (Hand_hit crd hand) (g\<lparr>drawn := n\<rparr>))"
    using assms(1) ha sh
    by (intro sound_set_hand [where hand = hand]) (simp_all add: sound_hand_hit)
  have hits: "sound (set_hand p h ((Hand_hit crd hand)\<lparr>status := s\<rparr>)
      (set_hand p h (Hand_hit crd hand) (g\<lparr>drawn := n\<rparr>)))" for crd n s
  proof -
    have "hand_at (set_hand p h (Hand_hit crd hand) (g\<lparr>drawn := n\<rparr>)) p h
        = Some (Hand_hit crd hand)"
      using ha by (simp add: hand_at_set_hand)
    from sound_set_hand [OF hit this] sh show ?thesis by (simp add: sound_hand_hit)
  qed
  have st: "\<And>s. sound (set_hand p h (hand\<lparr>status := s\<rparr>) g)"
    using assms(1) ha sh by (intro sound_set_hand [where hand = hand]) simp_all
  show ?thesis
  proof (cases m)
    case Move_SPLIT
    show ?thesis
    proof (cases "sumv (handSum hand) \<noteq> PERFECT \<and> length (cards hand) \<le> 2
        \<and> value (cards hand ! 0) = value (cards hand ! 1)")
      case False
      with assms(1,2) ha Move_SPLIT sh show ?thesis
        by (auto simp: handMove_def sound_hand_def split: list.splits if_splits)
    next
      case True
      with sh obtain c0 c1 where cs: "cards hand = [c0, c1]"
        by (cases "cards hand"; cases "tl (cards hand)") (auto simp: sound_hand_def)
      define hand3 where "hand3 = Hand_hit (fromRandom rnd (drawn g) False)
          (hand\<lparr>cards := [c0], handSum := fromCards [c0]\<rparr>)"
      define added1 where "added1 = Hand_hit (fromRandom rnd (drawn g + 1) False) (Hand_new [c1])"
      define hs where "hs = (hands (players g ! p))[h := hand3]"
      have s3: "sound_hand hand3" "sound_hand added1"
        unfolding hand3_def added1_def by (simp_all add: sound_hand_hit_one)
      from assms(1) p have "list_all sound_hand (hands (players g ! p))"
        by (auto simp: sound_def list_all_length)
      with s3(1) have lhs: "list_all sound_hand hs"
        unfolding hs_def
        by (auto simp: list_all_iff dest!: set_update_subset_insert [THEN subsetD])
      then have l1: "list_all sound_hand (take (h + 1) hs @ [added1] @ drop (h + 1) hs)"
        using s3(2) by (auto simp: list_all_iff dest: in_set_takeD in_set_dropD)
      have g': "g' = display (Note_split (fromRandom rnd (drawn g) False)
            (fromRandom rnd (drawn g + 1) False))
          (set_hands p (take (h + 1) hs @ [added1] @ drop (h + 1) hs) (g\<lparr>drawn := drawn g + 2\<rparr>))"
        using assms(2) ha Move_SPLIT True cs
        by (simp add: handMove_def Let_def hand3_def added1_def hs_def)
      have "sound (set_hands p (take (h + 1) hs @ [added1] @ drop (h + 1) hs)
          (g\<lparr>drawn := drawn g + 2\<rparr>))"
        using assms(1) l1 by (intro sound_set_hands) simp_all
      then show ?thesis using g' p by (simp add: set_hands_hands hs_def)
    qed
  qed (use assms(2) ha hit hits st assms(1) p in
      \<open>auto simp: handMove_def Let_def set_hand_hands split: if_splits\<close>)
qed

lemma handMove_no_Throws:
  assumes "sound g" and "hand_at g p h = Some hand"
  shows "handMove rnd p h m g \<noteq> Throws"
proof -
  from assms have "sound_hand hand" by (rule sound_hand_at)
  then obtain c0 c1 rest where "cards hand = c0 # c1 # rest"
    by (cases "cards hand"; cases "tl (cards hand)") (auto simp: sound_hand_def)
  with assms(2) show ?thesis
    by (cases m) (auto simp: handMove_def Let_def)
qed

lemma hand_at_seat:
  "hand_at g p h \<noteq> None \<longleftrightarrow> p < length (players g) \<and> h < length (hands (players g ! p))"
  by (auto simp: hand_at_def player_at_def)

lemma hand_at_seat_ex:
  "(\<exists>y. hand_at g p h = Some y) \<longleftrightarrow>
     p < length (players g) \<and> h < length (hands (players g ! p))"
  by (auto simp: hand_at_def player_at_def)

lemma handLoop_sound:
  "sound g \<Longrightarrow> hand_at g p h \<noteq> None \<Longrightarrow>
     (handLoop rnd p h ws g = Goes (ws', g') \<longrightarrow>
        sound g' \<and> length (players g') = length (players g)
        \<and> length (hands (players g ! p)) \<le> length (hands (players g' ! p)))
     \<and> (handLoop rnd p h ws g = Pending g' \<longrightarrow> sound g')
     \<and> handLoop rnd p h ws g \<noteq> Threw"
proof (induction ws arbitrary: g)
  case Nil
  from Nil(2) have "player_at g p = Some (players g ! p)" by (auto dest: hand_at_SomeD)
  with Nil(1) show ?case by auto
next
  case (Cons w ws)
  from Cons.prems(2) obtain hand where ha: "hand_at g p h = Some hand" by auto
  then have pl: "player_at g p = Some (players g ! p)" by (auto dest: hand_at_SomeD)
  show ?case
  proof (cases "Player_move (players g ! p) w g")
    case (Inl g1)
    with pl Cons.prems(1) show ?thesis by (auto dest!: Player_move_Inl)
  next
    case (Inr m)
    show ?thesis
    proof (cases "handMove rnd p h m g")
      case (Again g1)
      from handMove_sound [OF Cons.prems(1), of rnd p h m g1] Again
      have q: "sound g1" "length (players g1) = length (players g)"
        "length (hands (players g ! p)) \<le> length (hands (players g1 ! p))" by auto
      with Cons.prems(2) have "hand_at g1 p h \<noteq> None" by (simp add: hand_at_seat hand_at_seat_ex)
      from Cons.IH [OF q(1) this] q pl Inr Again show ?thesis by auto
    next
      case (Break g1)
      from handMove_sound [OF Cons.prems(1), of rnd p h m g1] Break pl Inr show ?thesis
        by auto
    next
      case (Returns g1)
      then show ?thesis using handMove_not_Returns by blast
    next
      case Throws
      with handMove_no_Throws [OF Cons.prems(1) ha, of rnd m] show ?thesis by simp
    qed
  qed
qed

lemma handTurn_sound:
  assumes "sound g" and "hand_at g p h \<noteq> None"
  shows "(handTurn rnd p h ws g = Goes (ws', g') \<longrightarrow>
        sound g' \<and> length (players g') = length (players g)
        \<and> length (hands (players g ! p)) \<le> length (hands (players g' ! p)))
     \<and> (handTurn rnd p h ws g = Pending g' \<longrightarrow> sound g')
     \<and> handTurn rnd p h ws g \<noteq> Threw"
proof -
  from assms(2) obtain hand where ha: "hand_at g p h = Some hand" by auto
  define g1 where "g1 = set_hand p h (hand\<lparr>status := Status_CURRENT\<rparr>) g"
  from assms(1) ha have s1: "sound g1"
    unfolding g1_def by (rule sound_set_hand) (simp add: sound_hand_at [OF assms(1) ha])
  from ha have h1: "hand_at g1 p h \<noteq> None"
    by (simp add: g1_def hand_at_set_hand)
  from ha have l: "length (players g1) = length (players g)"
    "length (hands (players g1 ! p)) = length (hands (players g ! p))"
    by (auto simp: g1_def set_hand_hands dest: hand_at_SomeD)
  from handLoop_sound [OF s1 h1, of rnd ws ws' g'] ha l show ?thesis
    by (simp add: handTurn_def g1_def)
qed

lemma handsLoop_sound:
  "sound g \<Longrightarrow> p < length (players g) \<Longrightarrow>
     (handsLoop rnd p h ws g = Goes (ws', g') \<longrightarrow>
        sound g' \<and> length (players g') = length (players g))
     \<and> (handsLoop rnd p h ws g = Pending g' \<longrightarrow> sound g')
     \<and> handsLoop rnd p h ws g \<noteq> Threw"
proof (induction rnd p h ws g rule: handsLoop.induct)
  case (1 rnd p h ws g)
  from "1.prems"(2) have pl: "player_at g p = Some (players g ! p)"
    by (simp add: player_at_def)
  show ?case
  proof (cases "h < length (hands (players g ! p))")
    case False
    with pl "1.prems" show ?thesis by (auto simp: handsLoop.simps [of rnd p h ws g])
  next
    case True
    with "1.prems"(2) have ha: "hand_at g p h \<noteq> None" by (simp add: hand_at_seat hand_at_seat_ex)
    show ?thesis
    proof (cases "handTurn rnd p h ws g")
      case (Goes x)
      obtain ws1 g1 where x: "x = (ws1, g1)" by (cases x)
      from handTurn_sound [OF "1.prems"(1) ha, of rnd ws ws1 g1] Goes x
      have q: "sound g1" "length (players g1) = length (players g)" by auto
      with "1.prems"(2) have "p < length (players g1)" by simp
      from "1.IH" [OF pl True Goes x [symmetric] q(1) this] q pl True Goes x show ?thesis
        by (auto simp: handsLoop.simps [of rnd p h ws g])
    next
      case (Returned g1)
      with pl True show ?thesis by (simp add: handsLoop.simps [of rnd p h ws g])
    next
      case (Pending g1)
      with handTurn_sound [OF "1.prems"(1) ha, of rnd ws ws' g1] pl True show ?thesis
        by (auto simp: handsLoop.simps [of rnd p h ws g])
    next
      case Threw
      with handTurn_sound [OF "1.prems"(1) ha, of rnd ws ws' g'] show ?thesis by simp
    qed
  qed
qed

lemma playersLoop_sound:
  "sound g \<Longrightarrow> list_all (\<lambda>p. p < length (players g)) ps \<Longrightarrow>
     (playersLoop rnd ps ws g = Goes (ws', g') \<longrightarrow>
        sound g' \<and> length (players g') = length (players g))
     \<and> (playersLoop rnd ps ws g = Pending g' \<longrightarrow> sound g')
     \<and> playersLoop rnd ps ws g \<noteq> Threw"
proof (induction ps arbitrary: ws g)
  case Nil
  then show ?case by auto
next
  case (Cons p ps)
  from Cons.prems have s0: "sound (display Note_prompt g)"
    and p0: "p < length (players (display Note_prompt g))" by simp_all
  show ?case
  proof (cases "handsLoop rnd p 0 ws (display Note_prompt g)")
    case (Goes x)
    obtain ws1 g1 where x: "x = (ws1, g1)" by (cases x)
    from handsLoop_sound [OF s0 p0, of rnd 0 ws ws1 g1] Goes x
    have q: "sound g1" "length (players g1) = length (players g)" by auto
    with Cons.prems(2) have "list_all (\<lambda>p. p < length (players g1)) ps" by simp
    from Cons.IH [OF q(1) this, of ws1] q Goes x show ?thesis by auto
  next
    case (Returned g1)
    then show ?thesis by simp
  next
    case (Pending g1)
    with handsLoop_sound [OF s0 p0, of rnd 0 ws ws' g1] show ?thesis by auto
  next
    case Threw
    with handsLoop_sound [OF s0 p0, of rnd 0 ws ws' g'] show ?thesis by simp
  qed
qed

lemma Players_deal_sound:
  "list_all (\<lambda>pl. hands pl \<noteq> [] \<and> list_all sound_hand (hands pl)) (Players_deal rnd n us)"
  by (induction us arbitrary: n) (simp_all add: Player_deal_def Hand_deal_def sound_hand_new)

lemma sound_deal: "us \<noteq> [] \<Longrightarrow> sound (deal rnd us)"
  by (cases us) (simp_all add: sound_def deal_def Players_deal_sound Dealer_deal_def
      Player_deal_def Hand_deal_def sound_hand_new)

lemma dealerTurn_no_error:
  assumes "sound g"
  shows "dealerTurn rnd g \<noteq> Errored"
proof -
  define g1 where "g1 = g\<lparr>dealer := (dealer g)\<lparr>status := Status_CURRENT\<rparr>\<rparr>"
  from assms obtain c d where r: "reveal (dealer g1) = Some (c, d)"
    by (auto simp: reveal_def g1_def Let_def sound_def)
  define g2 where "g2 = display (Note_dealer_reveal c) (g1\<lparr>dealer := d\<rparr>)"
  have t: "dealerTurn rnd g = outcome (dealerLoop rnd g2) settle"
    using r by (simp add: dealerTurn_def g1_def g2_def Let_def)
  have f: "players g2 = players g" by (simp add: g2_def g1_def)
  from assms have h0: "hand_at g 0 0 \<noteq> None"
    by (cases "players g") (auto simp: hand_at_seat hand_at_seat_ex sound_def)
  from dealerLoop_result [of rnd g2] show ?thesis
  proof (elim disjE exE conjE)
    fix g' assume a: "dealerLoop rnd g2 = Goes g'" "players g' = players g2"
    with f h0 have "hand_at g' 0 0 \<noteq> None" by (simp add: hand_at_seat hand_at_seat_ex)
    with a(1) t show ?thesis by (auto simp: outcome_def settle_def)
  next
    fix g' assume "dealerLoop rnd g2 = Returned g'"
    with t show ?thesis by (simp add: outcome_def)
  qed
qed

lemma runGame_no_error:
  assumes "us \<noteq> []"
  shows "runGame rnd us ws \<noteq> Errored"
proof (cases "sumv (handSum (dealer (deal rnd us))) = PERFECT")
  case True
  from runGame_natural [OF True assms, of ws] show ?thesis by auto
next
  case False
  have s: "sound (deal rnd us)" using assms by (rule sound_deal)
  have l: "list_all (\<lambda>p. p < length (players (deal rnd us))) [0..<length (players (deal rnd us))]"
    by (simp add: list_all_iff)
  show ?thesis
  proof (cases "playersLoop rnd [0..<length (players (deal rnd us))] ws (deal rnd us)")
    case (Goes x)
    obtain ws1 g1 where x: "x = (ws1, g1)" by (cases x)
    from playersLoop_sound [OF s l, of rnd ws ws1 g1] Goes x have "sound g1" by simp
    from dealerTurn_no_error [OF this, of rnd] False Goes x show ?thesis
      by (simp add: runGame_def Let_def outcome_def)
  next
    case (Returned g1)
    with False show ?thesis by (simp add: runGame_def Let_def outcome_def)
  next
    case (Pending g1)
    with False show ?thesis by (simp add: runGame_def Let_def outcome_def)
  next
    case Threw
    with playersLoop_sound [OF s l, of rnd ws ws "deal rnd us"] show ?thesis by simp
  qed
qed

section \<open>One result for a round\<close>





section \<open>A hand dealt as a blackjack, through the round\<close>

text \<open>The turn of a hand leaves the other players as they are.\<close>

lemma set_hands_other [simp]:
  "p \<noteq> q \<Longrightarrow> players (set_hands q hs g) ! p = players g ! p"
  by (simp add: set_hands_def)

lemma set_hand_other [simp]:
  "p \<noteq> q \<Longrightarrow> players (set_hand q h x g) ! p = players g ! p"
  by (simp add: set_hand_def)










lemma Players_deal_length [simp]: "length (Players_deal rnd n us) = length us"
  by (induction us arbitrary: n) simp_all






section \<open>A request that nobody answers\<close>

text \<open>When nobody ever writes and the dealer has no natural, the first request of the
  round times out: \<open>runGame\<close> is left awaiting, whatever the cards.\<close>

lemma playersLoop_nobody:
  assumes "hand_at g 0 0 = Some hand"
  shows "playersLoop rnd (0 # ps) [] g
     = Pending (inactivity (set_hand 0 0 (hand\<lparr>status := Status_CURRENT\<rparr>)
         (display Note_prompt g)))"
proof -
  define g0 where "g0 = display Note_prompt g"
  define g1 where "g1 = set_hand 0 0 (hand\<lparr>status := Status_CURRENT\<rparr>) g0"
  from assms have h0: "hand_at g0 0 0 = Some hand" by (simp add: g0_def)
  from hand_at_SomeD [OF h0] have p0: "player_at g0 0 = Some (players g0 ! 0)"
    "0 < length (hands (players g0 ! 0))" by simp_all
  from hand_at_set_hand [OF h0] have "hand_at g1 0 0 \<noteq> None" by (simp add: g1_def)
  then have "player_at g1 0 \<noteq> None" by (auto simp: hand_at_def split: option.splits)
  then have "handLoop rnd 0 0 [] g1 = Pending (inactivity g1)" by auto
  with h0 have "handTurn rnd 0 0 [] g0 = Pending (inactivity g1)"
    by (simp add: handTurn_def g1_def)
  with p0 have "handsLoop rnd 0 0 [] g0 = Pending (inactivity g1)"
    by (simp add: handsLoop.simps [of rnd 0 0 "[]" g0])
  then show ?thesis by (simp add: g0_def g1_def)
qed

lemma runGame_nobody:
  assumes "us \<noteq> []" and "sumv (handSum (dealer (deal rnd us))) \<noteq> PERFECT"
  shows "runGame rnd us []
     = Suspended (inactivity (set_hand 0 0 ((Hand_deal rnd 0)\<lparr>status := Status_CURRENT\<rparr>)
         (display Note_prompt (deal rnd us))))"
proof -
  from assms(1) have "[0..<length us] = 0 # [Suc 0..<length us]"
    by (intro upt_conv_Cons) simp
  then have l: "[0..<length (players (deal rnd us))] = 0 # [1..<length us]"
    by (simp add: deal_def)
  from deal_first [OF assms(1)] assms(2) l
    playersLoop_nobody [of "deal rnd us" "Hand_deal rnd 0" rnd "[1..<length us]"]
  show ?thesis by (simp add: runGame_def Let_def outcome_def)
qed

text \<open>Whenever \<open>runGame\<close> is left awaiting, so is \<open>execute\<close>, unless it refused to start
  the game: every player stays in the set of the channel.\<close>

lemma Set_new_set: "set (foldl (\<lambda>s x. if x \<in> set s then s else s @ [x]) acc xs) = set acc \<union> set xs"
  by (induction xs arbitrary: acc) auto

lemma execute_Suspended:
  assumes "runGame rnd (playerIds req) ws = Suspended g"
  shows "(\<exists>ids. execute rnd ws chs req = Already_playing ids chs)
     \<or> (\<exists>chs1 ids. execute rnd ws chs req = Awaiting chs1 g
           \<and> chs1 (channel req) = Some ids \<and> set (playerIds req) \<subseteq> set ids)"
  using assms by (auto simp: execute_def execute_enter_def Set_new_def Set_new_set)

text \<open>C10: user 1 starts a game alone in channel 7, is dealt ten and nine against the
  dealer's ten and seven, and writes nothing. The prompt receives the one inactivity
  notice and no result, but the round is never reported terminated: \<open>runGame\<close> awaits
  for ever, the promise of \<open>execute\<close> is never settled, and user 1 stays in the set of
  channel 7, so that the next command of user 1 there is refused with "Already
  playing". When user 1 writes "s" instead, \<open>execute\<close> returns, channel 7 has no set,
  and the next command is accepted. With two players, the first standing and the second
  writing nothing, both stay in the set of the channel.\<close>

theorem inactivity_never_returns:
  "runGame (shoe [9, 8, 9, 6]) [1] []
     = Suspended (the (final (runGame (shoe [9, 8, 9, 6]) [1] [])))
   \<and> map_option shown (final (runGame (shoe [9, 8, 9, 6]) [1] []))
       = Some [Note_prompt, Note_inactivity]
   \<and> \<not> returns (execute (shoe [9, 8, 9, 6]) [] Map.empty alone)
   \<and> registry (execute (shoe [9, 8, 9, 6]) [] Map.empty alone) 7 = Some [1]
   \<and> conflicts (execute (shoe [9, 8, 9, 6]) [[msg 1 ''s'']]
        (registry (execute (shoe [9, 8, 9, 6]) [] Map.empty alone)) alone) = Some [1]
   \<and> returns (execute (shoe [9, 8, 9, 6]) [[msg 1 ''s'']] Map.empty alone)
   \<and> registry (execute (shoe [9, 8, 9, 6]) [[msg 1 ''s'']] Map.empty alone) 7 = None
   \<and> conflicts (execute (shoe [9, 8, 9, 6]) [[msg 1 ''s'']]
        (registry (execute (shoe [9, 8, 9, 6]) [[msg 1 ''s'']] Map.empty alone)) alone) = None
   \<and> map_option shown (final (runGame (shoe [9, 8, 9, 7, 9, 6]) [1, 2] [[msg 1 ''s'']]))
       = Some [Note_prompt, Note_prompt, Note_inactivity]
   \<and> \<not> returns (execute (shoe [9, 8, 9, 7, 9, 6]) [[msg 1 ''s'']] Map.empty pair)
   \<and> registry (execute (shoe [9, 8, 9, 7, 9, 6]) [[msg 1 ''s'']] Map.empty pair) 7
       = Some [1, 2]
   \<and> conflicts (execute (shoe [9, 8, 9, 6]) [[msg 1 ''s'']]
        (registry (execute (shoe [9, 8, 9, 7, 9, 6]) [[msg 1 ''s'']] Map.empty pair)) alone)
       = Some [1]"
  by code_simp

end
